theory Spec2Isabelle
  imports Main "HOL-Library.Word"
begin

unbundle bit_operations_syntax

section \<open>Bytes and protocol constants\<close>

type_synonym byte = "8 word"

text \<open>protocol.h: the frame markers and the stuffing byte.\<close>

definition START_MARK_1 :: byte where "START_MARK_1 = 0xAA"
definition START_MARK_2 :: byte where "START_MARK_2 = 0x55"
definition END_MARK_1 :: byte where "END_MARK_1 = 0x55"
definition END_MARK_2 :: byte where "END_MARK_2 = 0xAA"
definition ESCAPE_BYTE :: byte where "ESCAPE_BYTE = 0x00"

section \<open>Device side: byte stuffing (protocol.c)\<close>

text \<open>
  \<^verbatim>\<open>escape_data(input, input_len, output, output_size)\<close>. The C loop runs while
  \<^verbatim>\<open>i < input_len && out_pos < output_size\<close>; the model carries the bytes written so
  far (\<open>out\<close>, so \<open>out_pos = length out\<close>) and the input still to be read. The result is
  \<open>None\<close> for the return value \<open>-1\<close> and \<open>Some out\<close> for the return value
  \<open>out_pos\<close> with the first \<open>out_pos\<close> bytes of the output buffer. A full output
  buffer met at a byte that needs no stuffing ends the loop without an error: the
  function then returns the truncated output.
\<close>

fun escape_loop :: "byte list \<Rightarrow> nat \<Rightarrow> byte list \<Rightarrow> byte list option" where
  "escape_loop [] output_size out = Some out"
| "escape_loop (b # bs) output_size out =
     (if \<not> length out < output_size then Some out
      else if b = 0xAA \<or> b = 0x55 then
        (if length out + 1 \<ge> output_size then None
         else escape_loop bs output_size (out @ [b, ESCAPE_BYTE]))
      else escape_loop bs output_size (out @ [b]))"

definition escape_data :: "byte list \<Rightarrow> nat \<Rightarrow> byte list option" where
  "escape_data input output_size = escape_loop input output_size []"

text \<open>
  \<^verbatim>\<open>unescape_data\<close>: a marker byte followed by the stuffing byte gives the marker
  byte and skips the stuffing byte; \<open>AA 55\<close> or \<open>55 AA\<close> inside the data is the
  error return \<open>-1\<close>; every other byte is copied.
\<close>

fun unescape_loop :: "byte list \<Rightarrow> nat \<Rightarrow> byte list \<Rightarrow> byte list option" where
  "unescape_loop [] output_size out = Some out"
| "unescape_loop [b] output_size out =
     (if \<not> length out < output_size then Some out else Some (out @ [b]))"
| "unescape_loop (b # c # bs) output_size out =
     (if \<not> length out < output_size then Some out
      else if (b = 0xAA \<or> b = 0x55) \<and> c = ESCAPE_BYTE then
        unescape_loop bs output_size (out @ [b])
      else if (b = 0xAA \<and> c = 0x55) \<or> (b = 0x55 \<and> c = 0xAA) then None
      else unescape_loop (c # bs) output_size (out @ [b]))"

definition unescape_data :: "byte list \<Rightarrow> nat \<Rightarrow> byte list option" where
  "unescape_data input output_size = unescape_loop input output_size []"

text \<open>The stuffing as the specification words it: one output group per input byte.\<close>

definition stuff_byte :: "byte \<Rightarrow> byte list" where
  "stuff_byte b = (if b = 0xAA \<or> b = 0x55 then [b, 0x00] else [b])"

definition stuffed :: "byte list \<Rightarrow> byte list" where
  "stuffed bs = concat (map stuff_byte bs)"

text \<open>A start or end marker pair at position \<open>i\<close> of a byte sequence.\<close>

definition marker_at :: "byte list \<Rightarrow> nat \<Rightarrow> bool" where
  "marker_at xs i \<longleftrightarrow>
     (xs ! i = 0xAA \<and> xs ! (i + 1) = 0x55) \<or> (xs ! i = 0x55 \<and> xs ! (i + 1) = 0xAA)"

section \<open>Device side: TLV fields and frames (protocol.h, protocol.c)\<close>

definition PROTOCOL_VERSION :: byte where "PROTOCOL_VERSION = 0x02"
definition PKT_TYPE_HOST_REQUEST :: byte where "PKT_TYPE_HOST_REQUEST = 0x00"
definition PKT_TYPE_SLAVE_RESPONSE :: byte where "PKT_TYPE_SLAVE_RESPONSE = 0x11"
definition PKT_TYPE_SLAVE_ERROR :: byte where "PKT_TYPE_SLAVE_ERROR = 0x1F"
definition MAX_PACKET_SIZE :: nat where "MAX_PACKET_SIZE = 512"
definition MAX_DATA_SIZE :: nat where "MAX_DATA_SIZE = MAX_PACKET_SIZE - 16"
definition STATUS_OK :: byte where "STATUS_OK = 0x00"
definition STATUS_INTERNAL_ERROR :: byte where "STATUS_INTERNAL_ERROR = 0xFF"

text \<open>The bytes of an ASCII string literal.\<close>

definition ascii :: "string \<Rightarrow> byte list" where
  "ascii s = map (\<lambda>c. of_nat (of_char c)) s"

text \<open>
  A tag macro is a C string literal; \<^verbatim>\<open>memcpy(buffer, tag, 2)\<close> and
  \<^verbatim>\<open>memcmp(buffer + i, tag, 2)\<close> use its first two bytes, the terminating NUL
  included when the literal has one character.
\<close>

definition tag_bytes :: "string \<Rightarrow> byte list" where
  "tag_bytes t = take 2 (ascii t @ [0])"

definition TAG_INSTRUCTION :: string where "TAG_INSTRUCTION = ''IN''"
definition TAG_DATA :: string where "TAG_DATA = ''DA''"
definition TAG_STATUS :: string where "TAG_STATUS = ''ST''"
definition TAG_ERROR_CODE :: string where "TAG_ERROR_CODE = ''EC''"
definition TAG_ERROR_DESC :: string where "TAG_ERROR_DESC = ''ED''"
definition TAG_TEMPERATURE :: string where "TAG_TEMPERATURE = ''T ''"
definition TAG_ALARM_ITEM :: string where "TAG_ALARM_ITEM = ''IT''"
definition TAG_LOG_LIST :: string where "TAG_LOG_LIST = ''LG''"
definition TAG_TIMESTAMP :: string where "TAG_TIMESTAMP = ''TS''"
definition TAG_TIME_START :: string where "TAG_TIME_START = ''T1''"
definition TAG_TIME_END :: string where "TAG_TIME_END = ''T2''"
definition TAG_MAX_COUNT :: string where "TAG_MAX_COUNT = ''MX''"

text \<open>
  Integers in memory, as \<^verbatim>\<open>memcpy\<close> of a \<^verbatim>\<open>uint16_t\<close>, \<^verbatim>\<open>uint32_t\<close> or
  \<^verbatim>\<open>uint64_t\<close> lays them out on the little-endian target (STM32).
\<close>

definition le16 :: "16 word \<Rightarrow> byte list" where
  "le16 w = [ucast w, ucast (drop_bit 8 w)]"

definition le32 :: "32 word \<Rightarrow> byte list" where
  "le32 w = [ucast w, ucast (drop_bit 8 w), ucast (drop_bit 16 w), ucast (drop_bit 24 w)]"

definition le64 :: "64 word \<Rightarrow> byte list" where
  "le64 w = [ucast w, ucast (drop_bit 8 w), ucast (drop_bit 16 w), ucast (drop_bit 24 w),
             ucast (drop_bit 32 w), ucast (drop_bit 40 w), ucast (drop_bit 48 w),
             ucast (drop_bit 56 w)]"

definition of_le16 :: "byte list \<Rightarrow> 16 word" where
  "of_le16 bs = ucast (bs ! 0) OR push_bit 8 (ucast (bs ! 1))"

definition of_le32 :: "byte list \<Rightarrow> 32 word" where
  "of_le32 bs = ucast (bs ! 0) OR push_bit 8 (ucast (bs ! 1)) OR push_bit 16 (ucast (bs ! 2))
                OR push_bit 24 (ucast (bs ! 3))"

definition of_le64 :: "byte list \<Rightarrow> 64 word" where
  "of_le64 bs = ucast (bs ! 0) OR push_bit 8 (ucast (bs ! 1)) OR push_bit 16 (ucast (bs ! 2))
                OR push_bit 24 (ucast (bs ! 3)) OR push_bit 32 (ucast (bs ! 4))
                OR push_bit 40 (ucast (bs ! 5)) OR push_bit 48 (ucast (bs ! 6))
                OR push_bit 56 (ucast (bs ! 7))"

text \<open>
  The \<^verbatim>\<open>write_tlv_*\<close> functions: \<open>None\<close> is the return value \<open>-1\<close>, \<open>Some bs\<close> the
  bytes written at the buffer position, whose count is the return value. A
  \<^verbatim>\<open>float\<close> is carried as its 32-bit pattern, which is all the functions copy.
\<close>

definition write_tlv_uint8 :: "nat \<Rightarrow> string \<Rightarrow> byte \<Rightarrow> byte list option" where
  "write_tlv_uint8 buffer_size tag v =
     (if buffer_size < 5 then None else Some (tag_bytes tag @ le16 1 @ [v]))"

definition write_tlv_uint16 :: "nat \<Rightarrow> string \<Rightarrow> 16 word \<Rightarrow> byte list option" where
  "write_tlv_uint16 buffer_size tag v =
     (if buffer_size < 6 then None else Some (tag_bytes tag @ le16 2 @ le16 v))"

definition write_tlv_uint64 :: "nat \<Rightarrow> string \<Rightarrow> 64 word \<Rightarrow> byte list option" where
  "write_tlv_uint64 buffer_size tag v =
     (if buffer_size < 12 then None else Some (tag_bytes tag @ le16 8 @ le64 v))"

definition write_tlv_float32 :: "nat \<Rightarrow> string \<Rightarrow> 32 word \<Rightarrow> byte list option" where
  "write_tlv_float32 buffer_size tag v =
     (if buffer_size < 8 then None else Some (tag_bytes tag @ le16 4 @ le32 v))"

text \<open>\<open>str\<close> is the C string without its terminator; \<^verbatim>\<open>strlen\<close> is stored in a \<^verbatim>\<open>uint16_t\<close>.\<close>

definition write_tlv_string :: "nat \<Rightarrow> string \<Rightarrow> byte list \<Rightarrow> byte list option" where
  "write_tlv_string buffer_size tag str =
     (let str_len = (of_nat (length str) :: 16 word)
      in if buffer_size < 4 + unat str_len then None
         else Some (tag_bytes tag @ le16 str_len @ take (unat str_len) str))"

text \<open>\<open>data\<close> holds the \<^verbatim>\<open>length\<close> bytes passed (\<^verbatim>\<open>length\<close> is a \<^verbatim>\<open>uint16_t\<close>).\<close>

definition write_tlv_raw :: "nat \<Rightarrow> string \<Rightarrow> byte list \<Rightarrow> byte list option" where
  "write_tlv_raw buffer_size tag data =
     (if buffer_size < 4 + length data then None
      else Some (tag_bytes tag @ le16 (of_nat (length data)) @ data))"

text \<open>
  A C call either returns or reads outside the memory it was given. The
  \<^verbatim>\<open>read_tlv_*\<close> loops run while \<^verbatim>\<open>i < buffer_size - 4\<close> in \<^verbatim>\<open>size_t\<close>
  arithmetic: with fewer than 4 bytes the bound wraps around and the first iteration
  reads the length field at \<^verbatim>\<open>buffer[2..3]\<close>, behind the data.
\<close>

datatype 'a c_result = OutOfBounds | Returned 'a

text \<open>
  The scan shared by all \<^verbatim>\<open>read_tlv_*\<close> functions: \<open>buffer\<close> holds the
  \<^verbatim>\<open>buffer_size\<close> valid bytes, \<open>accept\<close> is the function's own test on the length
  field. The result is the offset and length of the first accepted field with the tag,
  \<open>None\<close> for the return value \<open>-1\<close>.
\<close>

function tlv_scan ::
  "byte list \<Rightarrow> byte list \<Rightarrow> (nat \<Rightarrow> bool) \<Rightarrow> nat \<Rightarrow> (nat \<times> nat) option c_result" where
  "tlv_scan buffer tag accept i =
     (if length buffer < 4 then OutOfBounds
      else if \<not> i < length buffer - 4 then Returned None
      else
        let len = unat (of_le16 (take 2 (drop (i + 2) buffer)))
        in if take 2 (drop i buffer) = tag \<and> accept len \<and> i + 4 + len \<le> length buffer
           then Returned (Some (i, len))
           else tlv_scan buffer tag accept (i + 4 + len))"
  by pat_completeness auto
termination
  by (relation "measure (\<lambda>(buffer, tag, accept, i). length buffer - i)") auto

declare tlv_scan.simps [simp del]

definition tlv_value :: "byte list \<Rightarrow> nat \<times> nat \<Rightarrow> byte list" where
  "tlv_value buffer f = take (snd f) (drop (fst f + 4) buffer)"

fun map_result :: "('a \<Rightarrow> 'b) \<Rightarrow> 'a option c_result \<Rightarrow> 'b option c_result" where
  "map_result g OutOfBounds = OutOfBounds"
| "map_result g (Returned None) = Returned None"
| "map_result g (Returned (Some x)) = Returned (Some (g x))"

definition read_tlv_uint8 :: "byte list \<Rightarrow> string \<Rightarrow> byte option c_result" where
  "read_tlv_uint8 buffer tag =
     map_result (\<lambda>f. buffer ! (fst f + 4)) (tlv_scan buffer (tag_bytes tag) (\<lambda>len. len = 1) 0)"

definition read_tlv_uint16 :: "byte list \<Rightarrow> string \<Rightarrow> 16 word option c_result" where
  "read_tlv_uint16 buffer tag =
     map_result (\<lambda>f. of_le16 (tlv_value buffer f))
       (tlv_scan buffer (tag_bytes tag) (\<lambda>len. len = 2) 0)"

definition read_tlv_uint64 :: "byte list \<Rightarrow> string \<Rightarrow> 64 word option c_result" where
  "read_tlv_uint64 buffer tag =
     map_result (\<lambda>f. of_le64 (tlv_value buffer f))
       (tlv_scan buffer (tag_bytes tag) (\<lambda>len. len = 8) 0)"

text \<open>The result is the bytes copied into \<^verbatim>\<open>str\<close>; the function appends the NUL.\<close>

definition read_tlv_string :: "byte list \<Rightarrow> string \<Rightarrow> nat \<Rightarrow> byte list option c_result" where
  "read_tlv_string buffer tag str_size =
     map_result (tlv_value buffer) (tlv_scan buffer (tag_bytes tag) (\<lambda>len. len < str_size) 0)"

text \<open>\<open>max_length\<close> is the value of \<^verbatim>\<open>*length\<close> on entry.\<close>

definition read_tlv_raw :: "byte list \<Rightarrow> string \<Rightarrow> nat \<Rightarrow> byte list option c_result" where
  "read_tlv_raw buffer tag max_length =
     map_result (tlv_value buffer) (tlv_scan buffer (tag_bytes tag) (\<lambda>len. len \<le> max_length) 0)"

text \<open>The string a \<^verbatim>\<open>char\<close> array holds: the bytes before the first NUL.\<close>

definition c_string :: "byte list \<Rightarrow> byte list" where
  "c_string bs = takeWhile (\<lambda>b. b \<noteq> 0) bs"

record PacketHeader =
  version :: byte
  pkt_type :: byte
  packet_id :: "16 word"
  response_id :: "16 word"
  data_length :: "16 word"

text \<open>The packed struct in memory.\<close>

definition header_bytes :: "PacketHeader \<Rightarrow> byte list" where
  "header_bytes h =
     [version h, pkt_type h] @ le16 (packet_id h) @ le16 (response_id h) @ le16 (data_length h)"

fun words_of_bytes :: "byte list \<Rightarrow> 32 word list" where
  "words_of_bytes (a # b # c # d # rest) = of_le32 [a, b, c, d] # words_of_bytes rest"
| "words_of_bytes _ = []"

text \<open>
  \<^verbatim>\<open>calculate_crc32(data, length)\<close>. The CRC peripheral and its driver
  \<^verbatim>\<open>HAL_CRC_Calculate\<close> are outside the repository: \<open>hcrc\<close> is \<open>None\<close> when
  \<^verbatim>\<open>hcrc.Instance\<close> is \<^verbatim>\<open>NULL\<close> and otherwise the function the driver computes on
  a buffer of 32-bit words. \<open>mem\<close> is the memory at \<^verbatim>\<open>data\<close>; the driver is given
  \<^verbatim>\<open>(length + 3) / 4\<close> words of it, the fallback sums the first \<^verbatim>\<open>length\<close> bytes.
\<close>

definition calculate_crc32 :: "(32 word list \<Rightarrow> 32 word) option \<Rightarrow> byte list \<Rightarrow> nat \<Rightarrow> 32 word" where
  "calculate_crc32 hcrc mem len =
     (case hcrc of
        None \<Rightarrow> foldl (\<lambda>sum b. sum + ucast b) 0 (take len mem)
      | Some hal \<Rightarrow> hal (words_of_bytes (take (4 * ((len + 3) div 4)) mem)))"

text \<open>
  \<^verbatim>\<open>build_packet\<close>. \<open>temp_init\<close> is what the local \<^verbatim>\<open>temp_buffer\<close> (512 bytes)
  holds on entry; header and data overwrite its front, and the checksum call can read up
  to three bytes behind them. \<open>data\<close> is the \<^verbatim>\<open>data_len\<close> bytes passed.
\<close>

definition build_packet ::
  "(32 word list \<Rightarrow> 32 word) option \<Rightarrow> byte list \<Rightarrow> byte \<Rightarrow> 16 word \<Rightarrow> 16 word \<Rightarrow> byte list
   \<Rightarrow> nat \<Rightarrow> byte list option" where
  "build_packet hcrc temp_init ty pid rid data output_size =
     (if output_size < 16 + length data * 2 then None
      else
        let header = \<lparr>version = PROTOCOL_VERSION, pkt_type = ty, packet_id = pid,
                      response_id = rid, data_length = of_nat (length data)\<rparr>;
            temp = header_bytes header @ data;
            crc = calculate_crc32 hcrc (temp @ drop (length temp) temp_init) (length temp);
            temp2 = temp @ le32 crc
        in case escape_data temp2 (output_size - 2 - 2) of
             None \<Rightarrow> None
           | Some escaped \<Rightarrow>
               if 2 + length escaped + 2 > output_size then None
               else Some ([START_MARK_1, START_MARK_2] @ escaped @ [END_MARK_1, END_MARK_2]))"

section \<open>Device side: command dispatch (command_handler.c)\<close>

text \<open>
  What a handler call leaves behind: its return value, the \<^verbatim>\<open>*response_len\<close> bytes
  it wrote to \<^verbatim>\<open>response_data\<close>, and \<^verbatim>\<open>*status\<close>.
\<close>

record handler_out =
  h_result :: int
  h_response :: "byte list"
  h_status :: byte

type_synonym handler = "byte list \<Rightarrow> handler_out c_result"

datatype handler_id =
    H_ping | H_get_temp | H_get_rtc_date | H_get_rtc_time | H_set_rtc_date | H_set_rtc_time
  | H_get_alarms | H_set_alarms | H_get_log | H_set_led | H_reset_led | H_set_buzzer
  | H_reset_buzzer

definition command_table :: "(string \<times> handler_id) list" where
  "command_table =
     [(''ping'', H_ping), (''temp'', H_get_temp), (''gdat'', H_get_rtc_date),
      (''gtim'', H_get_rtc_time), (''sdat'', H_set_rtc_date), (''stim'', H_set_rtc_time),
      (''galm'', H_get_alarms), (''salm'', H_set_alarms), (''glog'', H_get_log),
      (''sled'', H_set_led), (''rled'', H_reset_led), (''sbzr'', H_set_buzzer),
      (''rbzr'', H_reset_buzzer)]"

text \<open>The lookup loop: the first entry whose command \<^verbatim>\<open>strcmp\<close> finds equal.\<close>

fun find_handler :: "(string \<times> handler_id) list \<Rightarrow> byte list \<Rightarrow> handler_id option" where
  "find_handler [] instruction = None"
| "find_handler ((command, h) # rest) instruction =
     (if c_string instruction = ascii command then Some h else find_handler rest instruction)"

text \<open>
  \<^verbatim>\<open>process_command_packet\<close>. \<open>run\<close> gives each handler of the table as a function
  of the request data. The result \<open>Returned None\<close> is the return value \<open>-1\<close>,
  \<open>Returned (Some p)\<close> the return value \<open>0\<close> with the response packet \<open>p\<close>.
\<close>

definition process_command_packet ::
  "(32 word list \<Rightarrow> 32 word) option \<Rightarrow> byte list \<Rightarrow> (handler_id \<Rightarrow> handler) \<Rightarrow> byte list
   \<Rightarrow> 16 word \<Rightarrow> byte list option c_result" where
  "process_command_packet hcrc temp_init run packet_data rid =
     (case read_tlv_string packet_data TAG_INSTRUCTION 5 of
        OutOfBounds \<Rightarrow> OutOfBounds
      | Returned None \<Rightarrow> Returned None
      | Returned (Some instruction) \<Rightarrow>
          (case find_handler command_table instruction of
             None \<Rightarrow> Returned None
           | Some h \<Rightarrow>
               (case read_tlv_raw packet_data TAG_DATA MAX_DATA_SIZE of
                  OutOfBounds \<Rightarrow> OutOfBounds
                | Returned da \<Rightarrow>
                    let request_data = (case da of None \<Rightarrow> [] | Some d \<Rightarrow> d)
                    in (case run h request_data of
                          OutOfBounds \<Rightarrow> OutOfBounds
                        | Returned out \<Rightarrow>
                            let status = (if h_result out < 0 then STATUS_INTERNAL_ERROR
                                          else h_status out);
                                response_data = (if h_result out < 0 then [] else h_response out)
                            in (case write_tlv_string MAX_DATA_SIZE TAG_INSTRUCTION
                                       (c_string instruction) of
                                  None \<Rightarrow> Returned None
                                | Some tlv_in \<Rightarrow>
                                   (case write_tlv_uint8 (MAX_DATA_SIZE - length tlv_in)
                                           TAG_STATUS status of
                                      None \<Rightarrow> Returned None
                                    | Some tlv_st \<Rightarrow>
                                       (case (if length response_data > 0
                                              then write_tlv_raw
                                                     (MAX_DATA_SIZE - length (tlv_in @ tlv_st))
                                                     TAG_DATA response_data
                                              else Some []) of
                                          None \<Rightarrow> Returned None
                                        | Some tlv_da \<Rightarrow>
                                            Returned (build_packet hcrc temp_init
                                              PKT_TYPE_SLAVE_RESPONSE 0x8000 rid
                                              (tlv_in @ tlv_st @ tlv_da) MAX_PACKET_SIZE))))))))"

text \<open>\<^verbatim>\<open>handle_ping\<close>: status OK, no response data.\<close>

definition handle_ping :: handler where
  "handle_ping request_data = Returned \<lparr>h_result = 0, h_response = [], h_status = STATUS_OK\<rparr>"

subsection \<open>The temperature log (device_control.c) and its query handler\<close>

record TempLogEntry =
  timestamp :: "64 word"
  temperature :: "32 word"

definition MAX_LOG_ENTRIES :: "32 word" where "MAX_LOG_ENTRIES = 100"

text \<open>The ring buffer: the array \<^verbatim>\<open>g_temp_log\<close> of 100 entries and its two counters.\<close>

record temp_log =
  g_temp_log :: "TempLogEntry list"
  g_log_count :: "32 word"
  g_log_write_index :: "32 word"

text \<open>
  The loop of \<^verbatim>\<open>temp_log_get_entries\<close>: \<open>i\<close> is the loop counter, \<open>found\<close> the
  entries copied so far (\<^verbatim>\<open>found_count = length found\<close>).
\<close>

function get_entries_loop ::
  "temp_log \<Rightarrow> 64 word \<Rightarrow> 64 word \<Rightarrow> 32 word \<Rightarrow> 32 word \<Rightarrow> nat \<Rightarrow> TempLogEntry list
   \<Rightarrow> TempLogEntry list" where
  "get_entries_loop lg start_time end_time max_entries read_index i found =
     (if i < unat (g_log_count lg) \<and> length found < unat max_entries then
        let current_index = (read_index + of_nat i) mod MAX_LOG_ENTRIES;
            e = g_temp_log lg ! unat current_index
        in get_entries_loop lg start_time end_time max_entries read_index (i + 1)
             (if timestamp e \<ge> start_time \<and> timestamp e \<le> end_time then found @ [e] else found)
      else found)"
  by pat_completeness auto
termination
  by (relation "measure (\<lambda>(lg, s, e, m, r, i, f). unat (g_log_count lg) - i)") auto

declare get_entries_loop.simps [simp del]

definition temp_log_get_entries ::
  "temp_log \<Rightarrow> 64 word \<Rightarrow> 64 word \<Rightarrow> 32 word \<Rightarrow> TempLogEntry list" where
  "temp_log_get_entries lg start_time end_time max_entries =
     (if max_entries = 0 then []
      else
        let read_index = (g_log_write_index lg + MAX_LOG_ENTRIES - g_log_count lg) mod MAX_LOG_ENTRIES
        in get_entries_loop lg start_time end_time max_entries read_index 0 [])"

text \<open>
  The loop of \<^verbatim>\<open>handle_get_log\<close> that serialises the entries found. Each item is
  built in the local \<^verbatim>\<open>log_item_data[16]\<close>; a failed write leaves the loop
  (\<^verbatim>\<open>break\<close>) with the list built so far.
\<close>

fun build_log_list :: "TempLogEntry list \<Rightarrow> byte list \<Rightarrow> byte list" where
  "build_log_list [] log_list = log_list"
| "build_log_list (e # es) log_list =
     (case write_tlv_uint64 16 TAG_TIMESTAMP (timestamp e) of
        None \<Rightarrow> log_list
      | Some ts \<Rightarrow>
          (case write_tlv_float32 (16 - length ts) TAG_TEMPERATURE (temperature e) of
             None \<Rightarrow> log_list
           | Some t \<Rightarrow>
               (case write_tlv_raw (MAX_DATA_SIZE - length log_list) TAG_ALARM_ITEM (ts @ t) of
                  None \<Rightarrow> log_list
                | Some item \<Rightarrow> build_log_list es (log_list @ item))))"

text \<open>
  \<^verbatim>\<open>handle_get_log\<close>. \<open>now\<close> is what \<^verbatim>\<open>rtc_get_timestamp()\<close> returns. The three
  reads leave their defaults when the field is absent.
\<close>

definition handle_get_log :: "temp_log \<Rightarrow> 64 word \<Rightarrow> handler" where
  "handle_get_log lg now request_data =
     (case read_tlv_uint64 request_data TAG_TIME_START of
        OutOfBounds \<Rightarrow> OutOfBounds
      | Returned t1 \<Rightarrow>
     (case read_tlv_uint64 request_data TAG_TIME_END of
        OutOfBounds \<Rightarrow> OutOfBounds
      | Returned t2 \<Rightarrow>
     (case read_tlv_uint16 request_data TAG_MAX_COUNT of
        OutOfBounds \<Rightarrow> OutOfBounds
      | Returned mx \<Rightarrow>
          let start_time0 = (case t1 of None \<Rightarrow> 0 | Some v \<Rightarrow> v);
              end_time0 = (case t2 of None \<Rightarrow> 0 | Some v \<Rightarrow> v);
              max_count = (case mx of None \<Rightarrow> 100 | Some v \<Rightarrow> v);
              end_time = (if end_time0 = 0 then now else end_time0);
              start_time = (if start_time0 = 0 then end_time - 24 * 3600 else start_time0);
              entries = temp_log_get_entries lg start_time end_time
                          (if max_count < 100 then ucast max_count else 100);
              log_list = build_log_list entries []
          in (case write_tlv_raw MAX_DATA_SIZE TAG_LOG_LIST log_list of
                None \<Rightarrow> Returned \<lparr>h_result = -1, h_response = [],
                                   h_status = STATUS_INTERNAL_ERROR\<rparr>
              | Some lg_tlv \<Rightarrow> Returned \<lparr>h_result = 0, h_response = lg_tlv,
                                         h_status = STATUS_OK\<rparr>))))"

section \<open>Device side: error frames and the packet id counter (communication.c)\<close>

definition COMM_TX_BUFFER_SIZE :: nat where "COMM_TX_BUFFER_SIZE = 1024"

record comm =
  packet_id_counter :: "16 word"
  tx_complete :: bool

text \<open>The static initialisers.\<close>

definition comm_init :: comm where
  "comm_init = \<lparr>packet_id_counter = 0x8000, tx_complete = True\<rparr>"

text \<open>\<^verbatim>\<open>send_response_packet\<close>: whether the packet went to the UART, and the new state.\<close>

definition send_response_packet :: "comm \<Rightarrow> byte list \<Rightarrow> bool \<times> comm" where
  "send_response_packet c packet =
     (if \<not> tx_complete c \<or> length packet > COMM_TX_BUFFER_SIZE then (False, c)
      else (True, c\<lparr>tx_complete := False\<rparr>))"

record error_send =
  es_result :: int
  es_packet :: "byte list option"
  es_transmitted :: bool
  es_comm :: comm

text \<open>
  \<^verbatim>\<open>send_error_response\<close>. \<open>error_desc\<close> is \<open>None\<close> for a \<^verbatim>\<open>NULL\<close> pointer and
  otherwise the C string. \<open>es_packet\<close> is the error packet handed to
  \<^verbatim>\<open>send_response_packet\<close>. The counter is incremented when the arguments of
  \<^verbatim>\<open>build_packet\<close> are evaluated, whatever \<^verbatim>\<open>build_packet\<close> then returns.
\<close>

definition send_error_response ::
  "(32 word list \<Rightarrow> 32 word) option \<Rightarrow> byte list \<Rightarrow> comm \<Rightarrow> 16 word \<Rightarrow> byte
   \<Rightarrow> byte list option \<Rightarrow> error_send" where
  "send_error_response hcrc temp_init c rid error_code error_desc =
     (case write_tlv_uint8 256 TAG_ERROR_CODE error_code of
        None \<Rightarrow> \<lparr>es_result = -1, es_packet = None, es_transmitted = False, es_comm = c\<rparr>
      | Some ec \<Rightarrow>
          (case (case error_desc of
                   None \<Rightarrow> Some []
                 | Some d \<Rightarrow> if length d > 0
                             then write_tlv_string (256 - length ec) TAG_ERROR_DESC d
                             else Some []) of
             None \<Rightarrow> \<lparr>es_result = -1, es_packet = None, es_transmitted = False, es_comm = c\<rparr>
           | Some ed \<Rightarrow>
               let c1 = c\<lparr>packet_id_counter := packet_id_counter c + 1\<rparr>
               in (case build_packet hcrc temp_init PKT_TYPE_SLAVE_ERROR (packet_id_counter c)
                          rid (ec @ ed) 512 of
                     None \<Rightarrow> \<lparr>es_result = -1, es_packet = None, es_transmitted = False,
                              es_comm = c1\<rparr>
                   | Some p \<Rightarrow>
                       let (sent, c2) = send_response_packet c1 p
                       in \<lparr>es_result = 0, es_packet = Some p, es_transmitted = sent,
                           es_comm = c2\<rparr>)))"

text \<open>Successive calls of \<^verbatim>\<open>send_error_response\<close>, each on the state the last one left.\<close>

fun send_errors ::
  "(32 word list \<Rightarrow> 32 word) option \<Rightarrow> byte list \<Rightarrow> comm
   \<Rightarrow> (16 word \<times> byte \<times> byte list option) list \<Rightarrow> error_send list" where
  "send_errors hcrc temp_init c [] = []"
| "send_errors hcrc temp_init c ((rid, code, desc) # rest) =
     (let e = send_error_response hcrc temp_init c rid code desc
      in e # send_errors hcrc temp_init (es_comm e) rest)"

section \<open>Host side: stream reassembly (CommunicationManager.ts)\<close>

text \<open>
  The scan of \<^verbatim>\<open>tryParsePackets\<close> for the start marker: the first index \<open>i\<close>
  with \<open>buffer[i] = 0xAA\<close> and \<open>buffer[i + 1] = 0x55\<close>, \<open>None\<close> for \<open>-1\<close>.
\<close>

fun find_start :: "byte list \<Rightarrow> nat \<Rightarrow> nat option" where
  "find_start (a # b # rest) i =
     (if a = 0xAA \<and> b = 0x55 then Some i else find_start (b # rest) (i + 1))"
| "find_start [a] i = None"
| "find_start [] i = None"

text \<open>\<^verbatim>\<open>DataView.getUint16(0, true)\<close> on two bytes.\<close>

definition getUint16 :: "byte \<Rightarrow> byte \<Rightarrow> nat" where
  "getUint16 lo hi = unat lo + 256 * unat hi"

text \<open>
  \<^verbatim>\<open>tryParsePackets\<close>. The state is the receive buffer; \<open>delivered\<close> collects the
  packet buffers handed to \<^verbatim>\<open>parseResponse\<close>/\<^verbatim>\<open>handleParsedResponse\<close>, in order.
  \<open>throws p\<close> says whether handling packet \<open>p\<close> raises inside the \<^verbatim>\<open>try\<close> block,
  in which case the \<^verbatim>\<open>catch\<close> branch drops one more byte. The declared length is
  read at buffer offset 10, as the source does.
\<close>

function tryParsePackets ::
  "(byte list \<Rightarrow> bool) \<Rightarrow> byte list \<Rightarrow> byte list list \<Rightarrow> byte list \<times> byte list list" where
  "tryParsePackets throws buf delivered =
     (if \<not> 16 \<le> length buf then (buf, delivered)
      else case find_start buf 0 of
        None \<Rightarrow> ([], delivered)
      | Some startIndex \<Rightarrow>
          let buf1 = (if startIndex > 0 then drop startIndex buf else buf) in
          if length buf1 < 16 then (buf1, delivered)
          else
            let dataLength = getUint16 (buf1 ! 10) (buf1 ! 11);
                totalPacketLength = 16 + dataLength
            in if length buf1 < totalPacketLength then (buf1, delivered)
               else
                 let packetBuffer = take totalPacketLength buf1;
                     buf2 = drop totalPacketLength buf1
                 in if throws packetBuffer
                    then tryParsePackets throws (drop 1 buf2) (delivered @ [packetBuffer])
                    else tryParsePackets throws buf2 (delivered @ [packetBuffer]))"
  by pat_completeness auto
termination
  by (relation "measure (\<lambda>(throws, buf, delivered). length buf)")
     (auto simp: Let_def split: if_splits)

declare tryParsePackets.simps [simp del]

text \<open>\<^verbatim>\<open>handleReceivedData\<close>: append the chunk, then parse.\<close>

definition handleReceivedData ::
  "(byte list \<Rightarrow> bool) \<Rightarrow> byte list \<Rightarrow> byte list \<Rightarrow> byte list \<times> byte list list" where
  "handleReceivedData throws responseBuffer data =
     tryParsePackets throws (responseBuffer @ data) []"

text \<open>Handling a packet never raises: \<^verbatim>\<open>parseResponse\<close> catches its own errors.\<close>

definition never_throws :: "byte list \<Rightarrow> bool" where
  "never_throws p = False"

text \<open>A byte sequence without the start-marker pair \<open>AA 55\<close>.\<close>

definition no_start_marker :: "byte list \<Rightarrow> bool" where
  "no_start_marker g \<longleftrightarrow> (\<forall>i. i + 1 < length g \<longrightarrow> \<not> (g ! i = 0xAA \<and> g ! (i + 1) = 0x55))"

text \<open>
  For stating the dispatcher's result: the request data the handler is given (the value of
  the \<open>DA\<close> field, empty when there is none), the response payload the specification
  describes (\<open>IN\<close>, \<open>ST\<close>, and \<open>DA\<close> when there is response data), and the frame
  layout of \<^verbatim>\<open>build_packet\<close> (markers around the stuffed header, payload and
  checksum).
\<close>

definition request_data_of :: "byte list \<Rightarrow> byte list" where
  "request_data_of packet_data =
     (case read_tlv_raw packet_data TAG_DATA MAX_DATA_SIZE of
        Returned (Some d) \<Rightarrow> d | _ \<Rightarrow> [])"

definition response_payload :: "byte list \<Rightarrow> handler_out \<Rightarrow> byte list" where
  "response_payload instruction out =
     (let status = (if h_result out < 0 then 0xFF else h_status out);
          response = (if h_result out < 0 then [] else h_response out)
      in ascii ''IN'' @ le16 (of_nat (length instruction)) @ instruction
         @ ascii ''ST'' @ le16 1 @ [status]
         @ (if response = [] then []
            else ascii ''DA'' @ le16 (of_nat (length response)) @ response))"

definition device_frame ::
  "(32 word list \<Rightarrow> 32 word) option \<Rightarrow> byte list \<Rightarrow> byte \<Rightarrow> 16 word \<Rightarrow> 16 word \<Rightarrow> byte list \<Rightarrow> byte list" where
  "device_frame hcrc temp_init ty pid rid payload =
     (let body = header_bytes \<lparr>version = 0x02, pkt_type = ty, packet_id = pid, response_id = rid,
                              data_length = of_nat (length payload)\<rparr> @ payload
      in [0xAA, 0x55]
         @ stuffed (body @ le32 (calculate_crc32 hcrc (body @ drop (length body) temp_init) (length body)))
         @ [0x55, 0xAA])"

text \<open>
  The concrete scenario of the log query: a device whose log holds the entries
  (1500, 22.5) and (2500, 23.0), temperatures as IEEE-754 single patterns, and a request
  with \<open>T1 = 1000\<close> and \<open>T2 = 2000\<close> as 8-byte fields.
\<close>

definition glog_scenario_log :: temp_log where
  "glog_scenario_log =
     \<lparr>g_temp_log = [\<lparr>timestamp = 1500, temperature = 0x41B40000\<rparr>,
                     \<lparr>timestamp = 2500, temperature = 0x41B80000\<rparr>]
                    @ replicate 98 \<lparr>timestamp = 0, temperature = 0\<rparr>,
      g_log_count = 2, g_log_write_index = 2\<rparr>"

definition glog_scenario_request :: "byte list" where
  "glog_scenario_request =
     [0x54, 0x31, 0x08, 0x00, 0xE8, 0x03, 0x00, 0x00, 0x00, 0x00, 0x00, 0x00,
      0x54, 0x32, 0x08, 0x00, 0xD0, 0x07, 0x00, 0x00, 0x00, 0x00, 0x00, 0x00]"

text \<open>
  The handlers of that device: the log handler as modelled; every other handler reports
  status OK without data, as \<^verbatim>\<open>handle_ping\<close> does.
\<close>

definition scenario_handlers :: "handler_id \<Rightarrow> handler" where
  "scenario_handlers h =
     (if h = H_get_log then handle_get_log glog_scenario_log 0 else handle_ping)"

section \<open>Host side: the packet counter (ProtocolService.ts)\<close>

definition MAX_PACKET_NUMBER :: nat where "MAX_PACKET_NUMBER = 0x7F"

text \<open>
  \<^verbatim>\<open>getNextPacketNumber\<close>: the counter starts at 0 and only this function writes it;
  the result is the packet number returned and the new counter.
\<close>

definition getNextPacketNumber :: "nat \<Rightarrow> nat \<times> nat" where
  "getNextPacketNumber packetCounter =
     (let c = (packetCounter + 1) mod (MAX_PACKET_NUMBER + 1) in (c, c))"

section \<open>Concrete device scenarios\<close>

text \<open>
  A device frame carries packet id \<open>pid\<close>: after the start marker come the stuffed
  version, type and little-endian packet id.
\<close>

definition carries_packet_id :: "byte list \<Rightarrow> byte \<Rightarrow> 16 word \<Rightarrow> bool" where
  "carries_packet_id p ty pid \<longleftrightarrow>
     take (2 + length (stuffed ([PROTOCOL_VERSION, ty] @ le16 pid))) p
       = [0xAA, 0x55] @ stuffed ([PROTOCOL_VERSION, ty] @ le16 pid)"

text \<open>The payload of a ping request: \<open>IN\<close> = "ping" and an empty \<open>DA\<close>.\<close>

definition ping_request_payload :: "byte list" where
  "ping_request_payload = [0x49, 0x4E, 0x04, 0x00, 0x70, 0x69, 0x6E, 0x67, 0x44, 0x41, 0x00, 0x00]"

text \<open>Two error reports: response id, error code, description.\<close>

definition scenario_errors :: "(16 word \<times> byte \<times> byte list option) list" where
  "scenario_errors = [(1, 0x01, Some (ascii ''Packet corrupted'')), (2, 0xFF, None)]"

section \<open>Host side: values and text (ProtocolService.ts)\<close>

text \<open>
  A JavaScript string is a sequence of UTF-16 code units. A number is modelled as an
  integer, or as a non-integral number given by its IEEE-754 single pattern (the numbers
  \<^verbatim>\<open>setFloat32\<close> stores without rounding; NaN and the infinities are non-integral).
  \<open>JUndefined\<close> stands for \<^verbatim>\<open>undefined\<close> and every other value that is neither
  string, number nor array.
\<close>

type_synonym jsstring = "16 word list"

definition js :: "string \<Rightarrow> jsstring" where
  "js s = map (\<lambda>c. of_nat (of_char c)) s"

datatype jsnum = JInt int | JFrac "32 word"

datatype jsvalue =
    JString jsstring
  | JNumber jsnum
  | JArray "(jsstring \<times> jsvalue) list"
  | JUndefined

type_synonym TLVField = "jsstring \<times> jsvalue"

datatype js_error =
    TLV_tag_must_be_2_characters
  | Unsupported_TLV_value_type
  | TLV_data_too_short_for_header
  | TLV_data_too_short_for_value
  | RangeError
  | Packet_too_short
  | Invalid_start_bytes
  | Packet_length_mismatch
  | CRC32_mismatch
  | Invalid_end_bytes

subsection \<open>TextEncoder and TextDecoder\<close>

definition is_high_surrogate :: "16 word \<Rightarrow> bool" where
  "is_high_surrogate u \<longleftrightarrow> 0xD800 \<le> u \<and> u \<le> 0xDBFF"

definition is_low_surrogate :: "16 word \<Rightarrow> bool" where
  "is_low_surrogate u \<longleftrightarrow> 0xDC00 \<le> u \<and> u \<le> 0xDFFF"

text \<open>The code points of a string; an unpaired surrogate becomes U+FFFD.\<close>

fun code_points :: "jsstring \<Rightarrow> nat list" where
  "code_points (a # b # rest) =
     (if is_high_surrogate a \<and> is_low_surrogate b
      then (0x10000 + (unat a - 0xD800) * 0x400 + (unat b - 0xDC00)) # code_points rest
      else if is_high_surrogate a \<or> is_low_surrogate a then 0xFFFD # code_points (b # rest)
      else unat a # code_points (b # rest))"
| "code_points [a] = (if is_high_surrogate a \<or> is_low_surrogate a then [0xFFFD] else [unat a])"
| "code_points [] = []"

definition utf8_of_code_point :: "nat \<Rightarrow> byte list" where
  "utf8_of_code_point cp =
     (if cp < 0x80 then [of_nat cp]
      else if cp < 0x800 then [of_nat (0xC0 + cp div 0x40), of_nat (0x80 + cp mod 0x40)]
      else if cp < 0x10000 then
        [of_nat (0xE0 + cp div 0x1000), of_nat (0x80 + cp div 0x40 mod 0x40),
         of_nat (0x80 + cp mod 0x40)]
      else
        [of_nat (0xF0 + cp div 0x40000), of_nat (0x80 + cp div 0x1000 mod 0x40),
         of_nat (0x80 + cp div 0x40 mod 0x40), of_nat (0x80 + cp mod 0x40)])"

definition TextEncoder_encode :: "jsstring \<Rightarrow> byte list" where
  "TextEncoder_encode s = concat (map utf8_of_code_point (code_points s))"

text \<open>
  The UTF-8 decoder of the Encoding standard, with replacement of malformed input:
  the bytes still to read, the code point under construction, the continuation bytes
  seen and needed, and the bounds for the next continuation byte.
\<close>

function utf8_decode_loop :: "byte list \<Rightarrow> nat \<Rightarrow> nat \<Rightarrow> nat \<Rightarrow> nat \<Rightarrow> nat \<Rightarrow> nat list" where
  "utf8_decode_loop [] cp seen needed lower upper = (if needed \<noteq> 0 then [0xFFFD] else [])"
| "utf8_decode_loop (b # bs) cp seen needed lower upper =
     (let v = unat b in
      if needed = 0 then
        (if v \<le> 0x7F then v # utf8_decode_loop bs 0 0 0 0x80 0xBF
         else if 0xC2 \<le> v \<and> v \<le> 0xDF then utf8_decode_loop bs (v mod 0x20) 0 1 0x80 0xBF
         else if 0xE0 \<le> v \<and> v \<le> 0xEF then
           utf8_decode_loop bs (v mod 0x10) 0 2 (if v = 0xE0 then 0xA0 else 0x80)
             (if v = 0xED then 0x9F else 0xBF)
         else if 0xF0 \<le> v \<and> v \<le> 0xF4 then
           utf8_decode_loop bs (v mod 0x08) 0 3 (if v = 0xF0 then 0x90 else 0x80)
             (if v = 0xF4 then 0x8F else 0xBF)
         else 0xFFFD # utf8_decode_loop bs 0 0 0 0x80 0xBF)
      else if \<not> (lower \<le> v \<and> v \<le> upper) then
        0xFFFD # utf8_decode_loop (b # bs) 0 0 0 0x80 0xBF
      else if seen + 1 \<noteq> needed then
        utf8_decode_loop bs (cp * 0x40 + v mod 0x40) (seen + 1) needed 0x80 0xBF
      else (cp * 0x40 + v mod 0x40) # utf8_decode_loop bs 0 0 0 0x80 0xBF)"
  by pat_completeness auto
termination
  by (relation "measure (\<lambda>(bs, cp, seen, needed, lower, upper).
                  2 * length bs + (if needed = 0 then 0 else 1))") auto

declare utf8_decode_loop.simps [simp del]

definition utf16_of_code_point :: "nat \<Rightarrow> jsstring" where
  "utf16_of_code_point cp =
     (if cp < 0x10000 then [of_nat cp]
      else [of_nat (0xD800 + (cp - 0x10000) div 0x400), of_nat (0xDC00 + (cp - 0x10000) mod 0x400)])"

text \<open>\<^verbatim>\<open>new TextDecoder().decode\<close>: a leading byte order mark is dropped.\<close>

definition TextDecoder_decode :: "byte list \<Rightarrow> jsstring" where
  "TextDecoder_decode bytes =
     concat (map utf16_of_code_point
       (utf8_decode_loop (if take 3 bytes = [0xEF, 0xBB, 0xBF] then drop 3 bytes else bytes)
          0 0 0 0x80 0xBF))"

subsection \<open>Numbers in a DataView\<close>

text \<open>
  \<^verbatim>\<open>getFloat32\<close>: the number a single pattern denotes, an integer when the value
  is integral (\<^verbatim>\<open>Number.isInteger\<close>), zero for both zeros.
\<close>

definition f32_to_number :: "32 word \<Rightarrow> jsnum" where
  "f32_to_number w =
     (let e = unat (drop_bit 23 w AND 0xFF);
          m = unat (w AND 0x7FFFFF);
          sign = (if bit w 31 then - 1 else 1 :: int);
          sig = 2 ^ 23 + m
      in if e = 255 then JFrac w
         else if e = 0 then (if m = 0 then JInt 0 else JFrac w)
         else if 150 \<le> e then JInt (sign * int (sig * 2 ^ (e - 150)))
         else if sig mod 2 ^ (150 - e) = 0 then JInt (sign * int (sig div 2 ^ (150 - e)))
         else JFrac w)"

fun bit_length :: "nat \<Rightarrow> nat" where
  "bit_length n = (if n = 0 then 0 else Suc (bit_length (n div 2)))"

declare bit_length.simps [simp del]

text \<open>
  \<^verbatim>\<open>Number(bigint)\<close> for an unsigned 64-bit value: exact up to 53 bits, beyond that the
  nearest number with a 53-bit significand, ties to even.
\<close>

definition number_of_uint64 :: "64 word \<Rightarrow> int" where
  "number_of_uint64 w =
     (let n = unat w in
      if n < 2 ^ 53 then int n
      else
        let k = bit_length n - 53;
            q = n div 2 ^ k;
            r = n mod 2 ^ k;
            half = 2 ^ (k - 1)
        in int ((if r > half \<or> (r = half \<and> odd q) then q + 1 else q) * 2 ^ k))"

subsection \<open>The TLV codec\<close>

text \<open>
  \<^verbatim>\<open>encodeTLV\<close>. The tag's two code units are stored in bytes, the length in 16
  bits; integers take the smallest of 1, 2, 4 or 8 bytes that the comparisons select.
\<close>

fun encodeTLV :: "jsstring \<Rightarrow> jsvalue \<Rightarrow> js_error + byte list"
  and value_bytes :: "jsvalue \<Rightarrow> js_error + byte list"
  and encode_fields :: "TLVField list \<Rightarrow> js_error + byte list" where
  "encodeTLV tag v =
     (if length tag \<noteq> 2 then Inl TLV_tag_must_be_2_characters
      else case value_bytes v of
             Inl e \<Rightarrow> Inl e
           | Inr valueBytes \<Rightarrow>
               Inr ([ucast (tag ! 0), ucast (tag ! 1)]
                    @ le16 (of_nat (length valueBytes)) @ valueBytes))"
| "value_bytes (JString s) = Inr (TextEncoder_encode s)"
| "value_bytes (JNumber (JInt n)) =
     (if n \<le> 0xFF then Inr [of_int n]
      else if n \<le> 0xFFFF then Inr (le16 (of_int n))
      else if n \<le> 0xFFFFFFFF then Inr (le32 (of_int n))
      else Inr (le64 (of_int n)))"
| "value_bytes (JNumber (JFrac w)) = Inr (le32 w)"
| "value_bytes (JArray items) = encode_fields items"
| "value_bytes JUndefined = Inl Unsupported_TLV_value_type"
| "encode_fields [] = Inr []"
| "encode_fields (item # rest) =
     (case encodeTLV (fst item) (snd item) of
        Inl e \<Rightarrow> Inl e
      | Inr bytes \<Rightarrow>
          (case encode_fields rest of
             Inl e \<Rightarrow> Inl e
           | Inr others \<Rightarrow> Inr (bytes @ others)))"

text \<open>The decoder's table: how the value of a tag is read.\<close>

datatype tag_kind = KFloat32 | KUint8 | KUint16 | KUint64 | KText | KNested

definition tag_kind_of :: "jsstring \<Rightarrow> tag_kind" where
  "tag_kind_of tag =
     (if tag = js ''T '' then KFloat32
      else if tag \<in> set (map js [''ST'', ''EC'', ''YY'', ''MM'', ''DD'', ''WK'', ''HH'', ''SS'', ''ID''])
        then KUint8
      else if tag = js ''MX'' then KUint16
      else if tag \<in> set (map js [''TS'', ''T1'', ''T2'']) then KUint64
      else if tag \<in> set (map js [''L '', ''H '']) then KFloat32
      else if tag \<in> set (map js [''IN'', ''ED'']) then KText
      else if tag \<in> set (map js [''DA'', ''AL'', ''LG'', ''IT'']) then KNested
      else KText)"

text \<open>
  \<^verbatim>\<open>decodeTLV(data, offset)\<close> and the loop that decodes fields until the end of a
  buffer (the nested-array case, and the payload loop of \<^verbatim>\<open>decodePacket\<close>). A
  \<^verbatim>\<open>DataView\<close> read behind the value bytes raises \<open>RangeError\<close>; indexing an
  empty array gives \<^verbatim>\<open>undefined\<close>.
\<close>

function decodeTLV :: "byte list \<Rightarrow> nat \<Rightarrow> js_error + (TLVField \<times> nat)"
  and decode_fields :: "byte list \<Rightarrow> nat \<Rightarrow> TLVField list \<Rightarrow> js_error + TLVField list" where
  "decodeTLV data offset =
     (if offset + 4 > length data then Inl TLV_data_too_short_for_header
      else
        let tag = [ucast (data ! offset), ucast (data ! (offset + 1))] :: jsstring;
            len = getUint16 (data ! (offset + 2)) (data ! (offset + 3))
        in if offset + 4 + len > length data then Inl TLV_data_too_short_for_value
           else
             let valueBytes = take len (drop (offset + 4) data);
                 nextOffset = offset + 4 + len
             in (case tag_kind_of tag of
                   KFloat32 \<Rightarrow>
                     if length valueBytes < 4 then Inl RangeError
                     else Inr ((tag, JNumber (f32_to_number (of_le32 valueBytes))), nextOffset)
                 | KUint8 \<Rightarrow>
                     if valueBytes = [] then Inr ((tag, JUndefined), nextOffset)
                     else Inr ((tag, JNumber (JInt (uint (valueBytes ! 0)))), nextOffset)
                 | KUint16 \<Rightarrow>
                     if length valueBytes < 2 then Inl RangeError
                     else Inr ((tag, JNumber (JInt (uint (of_le16 valueBytes)))), nextOffset)
                 | KUint64 \<Rightarrow>
                     if length valueBytes < 8 then Inl RangeError
                     else Inr ((tag, JNumber (JInt (number_of_uint64 (of_le64 valueBytes)))),
                               nextOffset)
                 | KText \<Rightarrow> Inr ((tag, JString (TextDecoder_decode valueBytes)), nextOffset)
                 | KNested \<Rightarrow>
                     (case decode_fields valueBytes 0 [] of
                        Inl e \<Rightarrow> Inl e
                      | Inr nested \<Rightarrow> Inr ((tag, JArray nested), nextOffset))))"
| "decode_fields data offset acc =
     (if offset < length data then
        (case decodeTLV data offset of
           Inl e \<Rightarrow> Inl e
         | Inr (field, nextOffset) \<Rightarrow> decode_fields data nextOffset (acc @ [field]))
      else Inr acc)"
  by pat_completeness auto


lemma decodeTLV_advances:
  "decodeTLV_decode_fields_dom (Inl (data, offset)) \<Longrightarrow>
   decodeTLV data offset = Inr (field, nextOffset) \<Longrightarrow> offset < nextOffset"
  by (auto simp: decodeTLV.psimps Let_def split: if_splits tag_kind.splits sum.splits)

termination decodeTLV
  apply (relation "measures
           [\<lambda>x. case x of Inl (data, offset) \<Rightarrow> length data | Inr (data, offset, acc) \<Rightarrow> length data,
            \<lambda>x. case x of Inl (data, offset) \<Rightarrow> 0
                 | Inr (data, offset, acc) \<Rightarrow> Suc (length data - offset)]")
     apply (auto dest: decodeTLV_advances)
  done

declare decodeTLV.simps [simp del] decode_fields.simps [simp del]


subsection \<open>CRC32\<close>

definition polynomial :: "32 word" where "polynomial = 0x04C11DB7"

text \<open>One round of the inner loop of \<^verbatim>\<open>initCRC32Table\<close>.\<close>

definition crc_shift :: "32 word \<Rightarrow> 32 word" where
  "crc_shift crc =
     (if crc AND 0x80000000 \<noteq> 0 then push_bit 1 crc XOR polynomial else push_bit 1 crc)"

definition crc32Table :: "32 word list" where
  "crc32Table = map (\<lambda>i. (crc_shift ^^ 8) (push_bit 24 (of_nat i))) [0..<256]"

text \<open>One round of the loop of \<^verbatim>\<open>calculateCRC32\<close>.\<close>

definition crc_update :: "32 word \<Rightarrow> byte \<Rightarrow> 32 word" where
  "crc_update crc b =
     (let index = (drop_bit 24 crc XOR ucast b) AND 0xFF
      in push_bit 8 crc XOR crc32Table ! unat index)"

text \<open>
  \<^verbatim>\<open>calculateCRC32\<close>. The loop keeps \<^verbatim>\<open>crc\<close> unsigned (\<^verbatim>\<open>>>> 0\<close>); the final
  \<^verbatim>\<open>crc ^ 0xFFFFFFFF\<close> is a signed 32-bit result.
\<close>

definition calculateCRC32 :: "byte list \<Rightarrow> int" where
  "calculateCRC32 data = sint (foldl crc_update 0xFFFFFFFF data XOR 0xFFFFFFFF)"

text \<open>
  The checksum as the specification words it: polynomial \<open>0x04C11DB7\<close>, each byte
  entered at the top of the register and shifted out bit by bit, most significant bit
  first, initial value and final XOR \<open>0xFFFFFFFF\<close>, no reflection.
\<close>

definition crc_byte :: "32 word \<Rightarrow> byte \<Rightarrow> 32 word" where
  "crc_byte crc b = (crc_shift ^^ 8) (crc XOR push_bit 24 (ucast b))"

definition crc32_bitwise :: "byte list \<Rightarrow> 32 word" where
  "crc32_bitwise data = foldl crc_byte 0xFFFFFFFF data XOR 0xFFFFFFFF"

subsection \<open>The frame codec\<close>

definition VERSION :: byte where "VERSION = 0x02"

text \<open>
  \<^verbatim>\<open>encodePacket\<close>: the packet counter is advanced first; the result is the packet
  (or the error thrown by \<^verbatim>\<open>encodeTLV\<close>) and the new counter. \<open>type\<close> and
  \<open>responseNumber\<close> are numbers, stored in 8 and 16 bits.
\<close>

definition encodePacket ::
  "nat \<Rightarrow> int \<Rightarrow> TLVField list \<Rightarrow> int \<Rightarrow> (js_error + byte list) \<times> nat" where
  "encodePacket packetCounter type data responseNumber =
     (let (packetNumber, counter) = getNextPacketNumber packetCounter
      in case encode_fields data of
           Inl e \<Rightarrow> (Inl e, counter)
         | Inr dataBuffer \<Rightarrow>
             let totalDataLength = length dataBuffer;
                 crcData = [VERSION, of_int type] @ le16 (of_nat packetNumber)
                           @ le16 (of_int responseNumber) @ le16 (of_nat totalDataLength)
                           @ dataBuffer;
                 crc32 = calculateCRC32 crcData;
                 packet = [0xAA, 0x55, VERSION, of_int type] @ le16 (of_nat packetNumber)
                          @ le16 (of_int responseNumber) @ le16 (of_nat totalDataLength)
                          @ dataBuffer @ le32 (of_int crc32) @ [0x55, 0xAA]
             in (Inr packet, counter))"

record ProtocolPacket =
  p_version :: nat
  p_type :: nat
  packetNumber :: nat
  responseNumber :: nat
  p_data :: "TLVField list"

text \<open>
  \<^verbatim>\<open>decodePacket\<close>. The payload is decoded before the checksum is compared; the
  comparison is between the signed result of \<^verbatim>\<open>calculateCRC32\<close> and the unsigned
  \<^verbatim>\<open>getUint32\<close>.
\<close>

definition decodePacket :: "byte list \<Rightarrow> js_error + ProtocolPacket" where
  "decodePacket buffer =
     (if length buffer < 16 then Inl Packet_too_short
      else if buffer ! 0 \<noteq> 0xAA \<or> buffer ! 1 \<noteq> 0x55 then Inl Invalid_start_bytes
      else
        let version = buffer ! 2;
            type = buffer ! 3;
            packetNumber = getUint16 (buffer ! 4) (buffer ! 5);
            responseNumber = getUint16 (buffer ! 6) (buffer ! 7);
            dataLength = getUint16 (buffer ! 8) (buffer ! 9)
        in if length buffer < 10 + dataLength + 4 + 2 then Inl Packet_length_mismatch
           else
             let dataBuffer = take dataLength (drop 10 buffer)
             in case decode_fields dataBuffer 0 [] of
                  Inl e \<Rightarrow> Inl e
                | Inr data \<Rightarrow>
                    let pos = 10 + dataLength;
                        receivedCRC = uint (of_le32 (take 4 (drop pos buffer)));
                        crcData = [version, type] @ le16 (of_nat packetNumber)
                                  @ le16 (of_nat responseNumber) @ le16 (of_nat dataLength)
                                  @ dataBuffer;
                        calculatedCRC = calculateCRC32 crcData
                    in if calculatedCRC \<noteq> receivedCRC then Inl CRC32_mismatch
                       else if buffer ! (pos + 4) \<noteq> 0x55 \<or> buffer ! (pos + 5) \<noteq> 0xAA
                         then Inl Invalid_end_bytes
                       else Inr \<lparr>p_version = unat version, p_type = unat type,
                                  packetNumber = packetNumber, responseNumber = responseNumber,
                                  p_data = data\<rparr>)"

text \<open>\<^verbatim>\<open>createPingRequest\<close>, on a service whose counter is \<open>packetCounter\<close>.\<close>

definition createPingRequest :: "nat \<Rightarrow> (js_error + byte list) \<times> nat" where
  "createPingRequest packetCounter =
     encodePacket packetCounter 0 [(js ''IN'', JString (js ''ping'')), (js ''DA'', JArray [])] 0"

section \<open>Host side: request tracking (CommunicationManager.ts)\<close>

text \<open>
  The errors a request promise is rejected with, or \<^verbatim>\<open>sendRequest\<close> throws.
\<close>

datatype request_error =
    Device_not_connected
  | Request_timeout string
  | Failed_to_send
  | Device_disconnected

datatype 'r outcome = Resolved 'r | Rejected request_error

text \<open>
  An entry of the \<^verbatim>\<open>pendingRequests\<close> map: the promise whose \<^verbatim>\<open>resolve\<close> and
  \<^verbatim>\<open>reject\<close> it holds, the timeout handle, and the command. Promises and timers
  are identified by numbers.
\<close>

record pending =
  p_promise :: nat
  p_timeout :: nat
  p_command :: string

text \<open>
  The manager: whether a device is set and connected, the pending map, the armed
  timers, the promises settled so far, the requests written to the device, and the next
  unused identity.
\<close>

record 'r manager =
  connected :: bool
  pendingRequests :: "string \<rightharpoonup> pending"
  timers :: "nat set"
  promises :: "nat \<rightharpoonup> 'r outcome"
  written :: "byte list list"
  next_id :: nat

text \<open>A promise is settled once; later calls of its resolve or reject change nothing.\<close>

definition settle :: "(nat \<rightharpoonup> 'r outcome) \<Rightarrow> nat \<Rightarrow> 'r outcome \<Rightarrow> (nat \<rightharpoonup> 'r outcome)" where
  "settle ps i out = (case ps i of None \<Rightarrow> ps(i \<mapsto> out) | Some done \<Rightarrow> ps)"

text \<open>
  \<^verbatim>\<open>sendRequest\<close>: without a connected device it throws; otherwise it creates the
  promise, arms the timer, stores the entry under the command with
  \<^verbatim>\<open>pendingRequests.set\<close>, and writes the request. The result is the error thrown
  or the promise returned, and the new state.
\<close>

definition sendRequest ::
  "'r manager \<Rightarrow> byte list \<Rightarrow> string \<Rightarrow> (request_error + nat) \<times> 'r manager" where
  "sendRequest m requestData command =
     (if \<not> connected m then (Inl Device_not_connected, m)
      else
        let i = next_id m
        in (Inr i,
            m\<lparr>timers := insert i (timers m),
              pendingRequests := (pendingRequests m)(command \<mapsto>
                 \<lparr>p_promise = i, p_timeout = i, p_command = command\<rparr>),
              written := written m @ [requestData],
              next_id := i + 1\<rparr>))"

text \<open>The timer callback of request \<open>i\<close> for \<open>command\<close>; it runs only while armed.\<close>

definition on_timeout :: "'r manager \<Rightarrow> nat \<Rightarrow> string \<Rightarrow> 'r manager" where
  "on_timeout m i command =
     (if i \<notin> timers m then m
      else m\<lparr>timers := timers m - {i},
             pendingRequests := (pendingRequests m)(command := None),
             promises := settle (promises m) i (Rejected (Request_timeout command))\<rparr>)"

text \<open>The \<^verbatim>\<open>catch\<close> callback of the device write of request \<open>i\<close>.\<close>

definition on_write_failed :: "'r manager \<Rightarrow> nat \<Rightarrow> string \<Rightarrow> 'r manager" where
  "on_write_failed m i command =
     m\<lparr>timers := timers m - {i},
       pendingRequests := (pendingRequests m)(command := None),
       promises := settle (promises m) i (Rejected Failed_to_send)\<rparr>"

text \<open>
  \<^verbatim>\<open>handleParsedResponse\<close>: \<open>command\<close> is the response's \<^verbatim>\<open>command\<close> field
  (\<open>None\<close> when undefined); an undefined or empty command looks up \<open>unknown\<close>.
\<close>

definition handleParsedResponse :: "'r manager \<Rightarrow> string option \<Rightarrow> 'r \<Rightarrow> 'r manager" where
  "handleParsedResponse m command response =
     (let requestKey = (case command of None \<Rightarrow> ''unknown''
                        | Some c \<Rightarrow> if c = [] then ''unknown'' else c)
      in case pendingRequests m requestKey of
           None \<Rightarrow> m
         | Some pendingRequest \<Rightarrow>
             m\<lparr>timers := timers m - {p_timeout pendingRequest},
               pendingRequests := (pendingRequests m)(requestKey := None),
               promises := settle (promises m) (p_promise pendingRequest) (Resolved response)\<rparr>)"

text \<open>\<^verbatim>\<open>clearPendingRequests\<close>, called on disconnect.\<close>

definition clearPendingRequests :: "'r manager \<Rightarrow> 'r manager" where
  "clearPendingRequests m =
     m\<lparr>timers := timers m - p_timeout ` ran (pendingRequests m),
       pendingRequests := Map.empty,
       promises := (\<lambda>i. if i \<in> p_promise ` ran (pendingRequests m) \<and> promises m i = None
                          then Some (Rejected Device_disconnected) else promises m i)\<rparr>"

text \<open>A connected manager that has sent nothing yet.\<close>

definition manager0 :: "unit manager" where
  "manager0 = \<lparr>connected = True, pendingRequests = Map.empty, timers = {},
               promises = Map.empty, written = [], next_id = 0\<rparr>"

section \<open>Concrete host scenarios\<close>

text \<open>The eight header bytes of a v2 frame between the start marker and the payload.\<close>

definition v2_header :: "byte \<Rightarrow> byte \<Rightarrow> 16 word \<Rightarrow> 16 word \<Rightarrow> 16 word \<Rightarrow> byte list" where
  "v2_header ver ty pid rid len = [ver, ty] @ le16 pid @ le16 rid @ le16 len"

text \<open>The fields of a ping request.\<close>

definition ping_fields :: "TLVField list" where
  "ping_fields = [(js ''IN'', JString (js ''ping'')), (js ''DA'', JArray [])]"

text \<open>The ping request frames with packet numbers 1 and 2.\<close>

definition ping_frame :: "byte list" where
  "ping_frame =
     [0xAA, 0x55, 0x02, 0x00, 0x01, 0x00, 0x00, 0x00, 0x0C, 0x00,
      0x49, 0x4E, 0x04, 0x00, 0x70, 0x69, 0x6E, 0x67, 0x44, 0x41, 0x00, 0x00,
      0xBA, 0x09, 0x12, 0xC0, 0x55, 0xAA]"

definition ping_frame_2 :: "byte list" where
  "ping_frame_2 =
     [0xAA, 0x55, 0x02, 0x00, 0x02, 0x00, 0x00, 0x00, 0x0C, 0x00,
      0x49, 0x4E, 0x04, 0x00, 0x70, 0x69, 0x6E, 0x67, 0x44, 0x41, 0x00, 0x00,
      0x92, 0x6E, 0x7B, 0x47, 0x55, 0xAA]"

text \<open>Header and payload of the device's response to a ping with packet id 1.\<close>

definition ping_response_body :: "byte list" where
  "ping_response_body =
     [0x02, 0x11, 0x00, 0x80, 0x01, 0x00, 0x0D, 0x00,
      0x49, 0x4E, 0x04, 0x00, 0x70, 0x69, 0x6E, 0x67, 0x53, 0x54, 0x01, 0x00, 0x00]"

section \<open>Values that a tag reads back\<close>

text \<open>
  The decoder reads a value by its tag, the encoder writes it by its JavaScript type
  and magnitude. The predicates below say when the two agree: the conditions under
  which the round-trip laws of the codec are stated.
\<close>

text \<open>
  A string without unpaired surrogates (the strings \<^verbatim>\<open>TextEncoder\<close> encodes
  without replacement).
\<close>

fun well_formed :: "jsstring \<Rightarrow> bool" where
  "well_formed (a # b # rest) =
     (if is_high_surrogate a then is_low_surrogate b \<and> well_formed rest
      else \<not> is_low_surrogate a \<and> well_formed (b # rest))"
| "well_formed [a] = (\<not> is_high_surrogate a \<and> \<not> is_low_surrogate a)"
| "well_formed [] = True"

text \<open>A Unicode scalar value.\<close>

definition scalar :: "nat \<Rightarrow> bool" where
  "scalar cp \<longleftrightarrow> cp < 0x110000 \<and> \<not> (0xD800 \<le> cp \<and> cp \<le> 0xDFFF)"

text \<open>
  A string that \<^verbatim>\<open>TextDecoder\<close> gives back: well formed, and not starting with the
  byte order mark U+FEFF, which the decoder drops.
\<close>

definition text_ok :: "jsstring \<Rightarrow> bool" where
  "text_ok s \<longleftrightarrow> well_formed s \<and> take 1 s \<noteq> [0xFEFF]"

text \<open>A single pattern that denotes NaN.\<close>

definition is_nan32 :: "32 word \<Rightarrow> bool" where
  "is_nan32 w \<longleftrightarrow> drop_bit 23 w AND 0xFF = 0xFF \<and> w AND 0x7FFFFF \<noteq> 0"

text \<open>
  \<open>tlv_fits tag v\<close>: the tag has two code units below 256, the value is of the kind
  and width the decoder's table reads for this tag, and its encoding fits the 16-bit
  length field. An integer fits a \<open>uint8\<close> tag when it is in \<open>0..255\<close>, the \<open>uint16\<close>
  tag when it is in \<open>256..65535\<close> (the encoder writes two bytes), a \<open>uint64\<close> tag when
  it is in \<open>2\<^sup>3\<^sup>2..2\<^sup>5\<^sup>3 - 1\<close> (the encoder writes eight bytes, and the number is exact);
  a non-integral number fits a \<open>float32\<close> tag when it is a single-precision number other
  than NaN; a string fits a text tag; an array fits a nested tag when its fields fit.
\<close>

fun tlv_fits :: "jsstring \<Rightarrow> jsvalue \<Rightarrow> bool"
  and value_fits :: "tag_kind \<Rightarrow> jsvalue \<Rightarrow> bool"
  and fields_fit :: "TLVField list \<Rightarrow> bool" where
  "tlv_fits tag v =
     (length tag = 2 \<and> tag ! 0 < 0x100 \<and> tag ! 1 < 0x100 \<and> value_fits (tag_kind_of tag) v
      \<and> (case value_bytes v of Inl e \<Rightarrow> False | Inr valueBytes \<Rightarrow> length valueBytes \<le> 0xFFFF))"
| "value_fits k (JString s) = (k = KText \<and> text_ok s)"
| "value_fits k (JNumber (JInt n)) =
     (k = KUint8 \<and> 0 \<le> n \<and> n \<le> 0xFF
      \<or> k = KUint16 \<and> 0xFF < n \<and> n \<le> 0xFFFF
      \<or> k = KUint64 \<and> 0xFFFFFFFF < n \<and> n < 2 ^ 53)"
| "value_fits k (JNumber (JFrac w)) = (k = KFloat32 \<and> f32_to_number w = JFrac w \<and> \<not> is_nan32 w)"
| "value_fits k (JArray items) = (k = KNested \<and> fields_fit items)"
| "value_fits k JUndefined = False"
| "fields_fit [] = True"
| "fields_fit (item # rest) = (tlv_fits (fst item) (snd item) \<and> fields_fit rest)"

section \<open>Byte stuffing: properties\<close>

lemma length_stuff_byte: "length (stuff_byte b) \<le> 2" "1 \<le> length (stuff_byte b)"
  by (simp_all add: stuff_byte_def)

lemma length_stuffed_le: "length (stuffed bs) \<le> 2 * length bs"
  by (induction bs) (simp_all add: stuffed_def stuff_byte_def)

lemma length_stuffed_ge: "length bs \<le> length (stuffed bs)"
  by (induction bs) (simp_all add: stuffed_def stuff_byte_def)

lemma escape_loop_stuffed:
  "length out + length (stuffed bs) \<le> output_size \<Longrightarrow>
   escape_loop bs output_size out = Some (out @ stuffed bs)"
proof (induction bs arbitrary: out)
  case Nil
  then show ?case by (simp add: stuffed_def)
next
  case (Cons b bs)
  have split: "stuffed (b # bs) = stuff_byte b @ stuffed bs"
    by (simp add: stuffed_def)
  show ?case
  proof (cases "b = 0xAA \<or> b = 0x55")
    case True
    then have sb: "stuff_byte b = [b, 0x00]" by (simp add: stuff_byte_def)
    from Cons.prems have fit: "length (out @ [b, ESCAPE_BYTE]) + length (stuffed bs) \<le> output_size"
      by (simp add: split sb)
    from Cons.IH [OF fit] True fit show ?thesis
      by (simp add: split sb ESCAPE_BYTE_def)
  next
    case False
    then have sb: "stuff_byte b = [b]" by (simp add: stuff_byte_def)
    from Cons.prems have fit: "length (out @ [b]) + length (stuffed bs) \<le> output_size"
      by (simp add: split sb)
    from Cons.IH [OF fit] False fit show ?thesis
      by (simp add: split sb)
  qed
qed

lemma unescape_loop_stuffed:
  "length out + length bs \<le> output_size \<Longrightarrow>
   unescape_loop (stuffed bs) output_size out = Some (out @ bs)"
proof (induction bs arbitrary: out)
  case Nil
  then show ?case by (simp add: stuffed_def)
next
  case (Cons b bs)
  have split: "stuffed (b # bs) = stuff_byte b @ stuffed bs"
    by (simp add: stuffed_def)
  from Cons.prems have fit: "length (out @ [b]) + length bs \<le> output_size"
    and room: "length out < output_size" by simp_all
  show ?case
  proof (cases "b = 0xAA \<or> b = 0x55")
    case True
    then have sb: "stuff_byte b = [b, 0x00]" by (simp add: stuff_byte_def)
    from Cons.IH [OF fit] True room show ?thesis
      by (simp add: split sb ESCAPE_BYTE_def)
  next
    case False
    then have sb: "stuff_byte b = [b]" by (simp add: stuff_byte_def)
    note IH = Cons.IH [OF fit]
    show ?thesis
    proof (cases "stuffed bs")
      case Nil
      then have "bs = []" using length_stuffed_ge [of bs] by simp
      with False room show ?thesis by (simp add: stuffed_def sb)
    next
      case (Cons c cs)
      with IH False room show ?thesis
        by (simp add: split sb)
    qed
  qed
qed

lemma stuffed_no_marker:
  "i + 1 < length (stuffed bs) \<Longrightarrow> \<not> marker_at (stuffed bs) i"
proof (induction bs arbitrary: i)
  case Nil
  then show ?case by (simp add: stuffed_def)
next
  case (Cons b bs)
  have split: "stuffed (b # bs) = stuff_byte b @ stuffed bs"
    by (simp add: stuffed_def)
  show ?case
  proof (cases "b = 0xAA \<or> b = 0x55")
    case True
    then have sb: "stuffed (b # bs) = b # 0x00 # stuffed bs"
      by (simp add: split stuff_byte_def)
    show ?thesis
    proof (cases i)
      case 0
      then show ?thesis by (simp add: sb marker_at_def)
    next
      case (Suc j)
      show ?thesis
      proof (cases j)
        case 0
        with Suc show ?thesis by (simp add: sb marker_at_def)
      next
        case (Suc k)
        with \<open>i = Suc j\<close> Cons.prems have "k + 1 < length (stuffed bs)" by (simp add: sb)
        from Cons.IH [OF this] Suc \<open>i = Suc j\<close> show ?thesis
          by (simp add: sb marker_at_def)
      qed
    qed
  next
    case False
    then have sb: "stuffed (b # bs) = b # stuffed bs"
      by (simp add: split stuff_byte_def)
    show ?thesis
    proof (cases i)
      case 0
      with False show ?thesis by (simp add: sb marker_at_def)
    next
      case (Suc j)
      with Cons.prems have "j + 1 < length (stuffed bs)" by (simp add: sb)
      from Cons.IH [OF this] Suc show ?thesis
        by (simp add: sb marker_at_def)
    qed
  qed
qed

text \<open>
  Claim C6. For every input \<open>b\<close> and every output capacity that holds the stuffed
  bytes, \<open>escape_data\<close> returns each \<open>0xAA\<close>/\<open>0x55\<close> followed by \<open>0x00\<close> and every
  other byte unchanged; \<open>unescape_data\<close> on that output, with room for \<open>b\<close>, returns
  \<open>b\<close>; and no \<open>AA 55\<close> or \<open>55 AA\<close> pair occurs anywhere in the escaped bytes.
\<close>

theorem C6_escape_roundtrip:
  assumes "length (stuffed b) \<le> esc_size" and "length b \<le> unesc_size"
  shows "escape_data b esc_size = Some (stuffed b)
       \<and> unescape_data (stuffed b) unesc_size = Some b
       \<and> (\<forall>i. i + 1 < length (stuffed b) \<longrightarrow> \<not> marker_at (stuffed b) i)"
  using assms escape_loop_stuffed [of "[]" b esc_size]
    unescape_loop_stuffed [of "[]" b unesc_size] stuffed_no_marker [of _ b]
  by (simp add: escape_data_def unescape_data_def)

theorem C6_escape_roundtrip_witness:
  "escape_data [0x01, 0xAA, 0x55, 0x00, 0x7F] 7 = Some [0x01, 0xAA, 0x00, 0x55, 0x00, 0x00, 0x7F]
   \<and> unescape_data [0x01, 0xAA, 0x00, 0x55, 0x00, 0x00, 0x7F] 5 = Some [0x01, 0xAA, 0x55, 0x00, 0x7F]
   \<and> \<not> marker_at [0x01, 0xAA, 0x00, 0x55, 0x00, 0x00, 0x7F] 1"
proof -
  have s: "stuffed [0x01, 0xAA, 0x55, 0x00, 0x7F] = [0x01, 0xAA, 0x00, 0x55, 0x00, 0x00, 0x7F]"
    by (simp add: stuffed_def stuff_byte_def)
  have h1: "length (stuffed [0x01, 0xAA, 0x55, 0x00, 0x7F]) \<le> 7" by (simp add: s)
  have h2: "length [0x01, 0xAA, 0x55, 0x00, 0x7F :: byte] \<le> 5" by simp
  from C6_escape_roundtrip [OF h1 h2] show ?thesis by (simp add: s)
qed

section \<open>Stream reassembly: properties\<close>

lemma no_start_marker_Cons2:
  "no_start_marker (a # b # rest) \<longleftrightarrow>
     \<not> (a = 0xAA \<and> b = 0x55) \<and> no_start_marker (b # rest)"
  unfolding no_start_marker_def
  apply (rule iffI)
   apply (rule conjI)
    apply (drule spec [of _ 0], simp)
   apply (intro allI impI)
  subgoal for i by (drule spec [of _ "Suc i"]) simp
  apply (intro allI impI)
  subgoal for i by (cases i) auto
  done

lemma no_start_marker_short: "no_start_marker [a]" "no_start_marker []"
  by (simp_all add: no_start_marker_def)

lemma find_start_none:
  "no_start_marker g \<Longrightarrow> find_start g i = None"
  by (induction g i rule: find_start.induct) (simp_all add: no_start_marker_Cons2)

text \<open>
  Claim C7, as stated, fails for short garbage: the parse loop only runs once 16 bytes
  are buffered, so a single garbage byte stays in the receive buffer.
\<close>

theorem C7_short_garbage_retained:
  "no_start_marker [0x01] \<and> handleReceivedData never_throws [] [0x01] = ([0x01], [])"
  by (simp add: no_start_marker_def handleReceivedData_def tryParsePackets.simps)

text \<open>
  Claim C7, amended. For every buffered prefix and chunk whose concatenation contains no
  \<open>AA 55\<close> pair, no frame is delivered; the receive buffer is emptied when at least 16
  bytes are buffered and keeps the garbage when fewer are.
\<close>

theorem C7_garbage_no_frame:
  assumes "no_start_marker (buf @ g)"
  shows "handleReceivedData throws buf g =
           (if 16 \<le> length (buf @ g) then [] else buf @ g, [])"
  using find_start_none [OF assms, of 0]
  by (simp add: handleReceivedData_def tryParsePackets.simps)

theorem C7_garbage_no_frame_witness:
  "handleReceivedData never_throws []
     [0x01, 0x02, 0x55, 0xAA, 0x05, 0x06, 0x07, 0x08, 0x09, 0x0A, 0x0B, 0x0C, 0x0D, 0x0E, 0x0F, 0x10, 0xAA]
   = ([], [])"
proof -
  have h: "no_start_marker ([] @
     [0x01, 0x02, 0x55, 0xAA, 0x05, 0x06, 0x07, 0x08, 0x09, 0x0A, 0x0B, 0x0C, 0x0D, 0x0E, 0x0F, 0x10, 0xAA :: byte])"
    by (simp add: no_start_marker_Cons2 no_start_marker_short)
  from C7_garbage_no_frame [OF h, of never_throws] show ?thesis by simp
qed

section \<open>Command dispatch: properties\<close>

lemmas device_consts = PROTOCOL_VERSION_def PKT_TYPE_HOST_REQUEST_def PKT_TYPE_SLAVE_RESPONSE_def
  PKT_TYPE_SLAVE_ERROR_def MAX_PACKET_SIZE_def MAX_DATA_SIZE_def STATUS_OK_def
  STATUS_INTERNAL_ERROR_def START_MARK_1_def START_MARK_2_def END_MARK_1_def END_MARK_2_def
  TAG_INSTRUCTION_def TAG_DATA_def TAG_STATUS_def TAG_ERROR_CODE_def TAG_ERROR_DESC_def
  TAG_TEMPERATURE_def TAG_ALARM_ITEM_def TAG_LOG_LIST_def TAG_TIMESTAMP_def TAG_TIME_START_def
  TAG_TIME_END_def TAG_MAX_COUNT_def

lemma tlv_scan_OutOfBounds_iff:
  "tlv_scan buffer tag accept i = OutOfBounds \<longleftrightarrow> length buffer < 4"
proof (induction buffer tag accept i rule: tlv_scan.induct)
  case (1 buffer tag accept i)
  show ?case
  proof (cases "length buffer < 4")
    case True
    then show ?thesis by (subst tlv_scan.simps) simp
  next
    case False
    show ?thesis
    proof (cases "i < length buffer - 4")
      case outside: False
      with False show ?thesis by (subst tlv_scan.simps) simp
    next
      case inside: True
      with False "1.IH" show ?thesis
        by (subst tlv_scan.simps) (simp add: Let_def)
    qed
  qed
qed

lemma tlv_scan_Some_bounds:
  "tlv_scan buffer tag accept i = Returned (Some (j, len)) \<Longrightarrow>
     accept len \<and> j + 4 + len \<le> length buffer"
proof (induction buffer tag accept i rule: tlv_scan.induct)
  case (1 buffer tag accept i)
  from "1.prems" show ?case
    by (subst (asm) tlv_scan.simps) (auto simp: Let_def "1.IH" split: if_splits)
qed

lemma map_result_OutOfBounds_iff: "map_result g r = OutOfBounds \<longleftrightarrow> r = OutOfBounds"
  by (cases "(g, r)" rule: map_result.cases) simp_all

lemma length_header_bytes: "length (header_bytes h) = 8"
  by (simp add: header_bytes_def le16_def)

lemma find_handler_length:
  "find_handler command_table instruction = Some h \<Longrightarrow> length (c_string instruction) = 4"
  by (auto simp: command_table_def ascii_def split: if_splits)

lemma build_packet_frame:
  assumes "length data \<le> 242"
  shows "build_packet hcrc temp_init ty pid rid data MAX_PACKET_SIZE
         = Some (device_frame hcrc temp_init ty pid rid data)"
proof -
  define body where "body = header_bytes \<lparr>version = 0x02, pkt_type = ty, packet_id = pid,
                              response_id = rid, data_length = of_nat (length data)\<rparr> @ data"
  define temp2 where
    "temp2 = body @ le32 (calculate_crc32 hcrc (body @ drop (length body) temp_init) (length body))"
  have len: "length temp2 \<le> 254"
    using assms by (simp add: temp2_def body_def length_header_bytes le32_def)
  have "length (stuffed temp2) \<le> 2 * length temp2" by (rule length_stuffed_le)
  with len have fit: "length (stuffed temp2) \<le> 508" by linarith
  then have esc: "escape_data temp2 508 = Some (stuffed temp2)"
    using escape_loop_stuffed [of "[]" temp2 508] by (simp add: escape_data_def)
  have "build_packet hcrc temp_init ty pid rid data MAX_PACKET_SIZE
        = (case escape_data temp2 508 of None \<Rightarrow> None
           | Some escaped \<Rightarrow> if 2 + length escaped + 2 > 512 then None
               else Some ([0xAA, 0x55] @ escaped @ [0x55, 0xAA]))"
    unfolding build_packet_def Let_def device_consts temp2_def body_def
    using assms by simp
  also have "\<dots> = Some ([0xAA, 0x55] @ stuffed temp2 @ [0x55, 0xAA])"
    using fit by (simp add: esc)
  also have "\<dots> = Some (device_frame hcrc temp_init ty pid rid data)"
    by (simp add: device_frame_def Let_def temp2_def body_def)
  finally show ?thesis .
qed

lemma response_build:
  assumes l4: "length name = 4" and rl: "length resp \<le> 225"
  shows "(case write_tlv_string MAX_DATA_SIZE TAG_INSTRUCTION name of
            None \<Rightarrow> Returned None
          | Some tlv_in \<Rightarrow>
             (case write_tlv_uint8 (MAX_DATA_SIZE - length tlv_in) TAG_STATUS status of
                None \<Rightarrow> Returned None
              | Some tlv_st \<Rightarrow>
                 (case (if length resp > 0
                        then write_tlv_raw (MAX_DATA_SIZE - length (tlv_in @ tlv_st)) TAG_DATA resp
                        else Some []) of
                    None \<Rightarrow> Returned None
                  | Some tlv_da \<Rightarrow>
                      Returned (build_packet hcrc temp_init PKT_TYPE_SLAVE_RESPONSE 0x8000 rid
                        (tlv_in @ tlv_st @ tlv_da) MAX_PACKET_SIZE))))
         = Returned (Some (device_frame hcrc temp_init 0x11 0x8000 rid
             (ascii ''IN'' @ le16 (of_nat (length name)) @ name @ ascii ''ST'' @ le16 1 @ [status]
              @ (if resp = [] then [] else ascii ''DA'' @ le16 (of_nat (length resp)) @ resp))))"
proof -
  define tlv_in where "tlv_in = ascii ''IN'' @ le16 4 @ name"
  define tlv_st where "tlv_st = ascii ''ST'' @ le16 1 @ [status]"
  define tlv_da where
    "tlv_da = (if resp = [] then [] else ascii ''DA'' @ le16 (of_nat (length resp)) @ resp)"
  have lin: "length tlv_in = 8" by (simp add: tlv_in_def ascii_def le16_def l4)
  have lst: "length tlv_st = 5" by (simp add: tlv_st_def ascii_def le16_def)
  have lda: "length tlv_da \<le> 229" using rl by (simp add: tlv_da_def ascii_def le16_def)
  have w_in: "write_tlv_string MAX_DATA_SIZE TAG_INSTRUCTION name = Some tlv_in"
    by (simp add: write_tlv_string_def l4 device_consts tag_bytes_def ascii_def tlv_in_def)
  have w_st: "write_tlv_uint8 (MAX_DATA_SIZE - length tlv_in) TAG_STATUS status = Some tlv_st"
    by (simp add: write_tlv_uint8_def lin device_consts tag_bytes_def ascii_def tlv_st_def)
  have w_da: "(if length resp > 0
               then write_tlv_raw (MAX_DATA_SIZE - length (tlv_in @ tlv_st)) TAG_DATA resp
               else Some []) = Some tlv_da"
    using rl by (simp add: write_tlv_raw_def lin lst device_consts tag_bytes_def ascii_def tlv_da_def)
  have "length (tlv_in @ tlv_st @ tlv_da) \<le> 242" using lin lst lda by simp
  from build_packet_frame [OF this]
  have "build_packet hcrc temp_init PKT_TYPE_SLAVE_RESPONSE 0x8000 rid
          (tlv_in @ tlv_st @ tlv_da) MAX_PACKET_SIZE
        = Some (device_frame hcrc temp_init 0x11 0x8000 rid (tlv_in @ tlv_st @ tlv_da))"
    by (simp add: PKT_TYPE_SLAVE_RESPONSE_def)
  then show ?thesis
    by (simp only: w_in w_st w_da option.case)
       (simp add: tlv_in_def tlv_st_def tlv_da_def l4)
qed

text \<open>
  Claim C8. When the instruction of a request is found in the command table and its
  handler returns (with at most 225 bytes of response data unless it fails), the
  dispatcher returns a frame of type DEVICE_RESPONSE (\<open>0x11\<close>) whose response id is the
  request's packet id and whose payload is \<open>IN\<close> echoing the instruction, \<open>ST\<close> with
  the handler's status, and \<open>DA\<close> exactly when there is response data; a negative
  return value of the handler forces status \<open>0xFF\<close> and no response data.
\<close>

theorem C8_dispatch_response:
  assumes instr: "read_tlv_string packet_data TAG_INSTRUCTION 5 = Returned (Some instruction)"
      and found: "find_handler command_table instruction = Some h"
      and ran: "run h (request_data_of packet_data) = Returned out"
      and fits: "h_result out < 0 \<or> length (h_response out) \<le> 225"
  shows "process_command_packet hcrc temp_init run packet_data rid
         = Returned (Some (device_frame hcrc temp_init 0x11 0x8000 rid
                             (response_payload (c_string instruction) out)))"
proof -
  have "read_tlv_string packet_data TAG_INSTRUCTION 5 \<noteq> OutOfBounds"
    using instr by simp
  then have "length packet_data \<ge> 4"
    by (simp add: read_tlv_string_def map_result_OutOfBounds_iff tlv_scan_OutOfBounds_iff)
  then have "read_tlv_raw packet_data TAG_DATA MAX_DATA_SIZE \<noteq> OutOfBounds"
    by (simp add: read_tlv_raw_def map_result_OutOfBounds_iff tlv_scan_OutOfBounds_iff)
  then obtain da where da: "read_tlv_raw packet_data TAG_DATA MAX_DATA_SIZE = Returned da"
    by (cases "read_tlv_raw packet_data TAG_DATA MAX_DATA_SIZE") auto
  have req: "(case da of None \<Rightarrow> [] | Some d \<Rightarrow> d) = request_data_of packet_data"
    by (simp add: request_data_of_def da split: option.splits)
  have l4: "length (c_string instruction) = 4" by (rule find_handler_length [OF found])
  have rl: "length (if h_result out < 0 then [] else h_response out) \<le> 225"
    using fits by auto
  have "process_command_packet hcrc temp_init run packet_data rid
        = Returned (Some (device_frame hcrc temp_init 0x11 0x8000 rid
             (ascii ''IN'' @ le16 (of_nat (length (c_string instruction))) @ c_string instruction
              @ ascii ''ST'' @ le16 1
              @ [if h_result out < 0 then STATUS_INTERNAL_ERROR else h_status out]
              @ (if (if h_result out < 0 then [] else h_response out) = [] then []
                 else ascii ''DA''
                      @ le16 (of_nat (length (if h_result out < 0 then [] else h_response out)))
                      @ (if h_result out < 0 then [] else h_response out)))))"
    unfolding process_command_packet_def
    by (simp only: instr found da c_result.case option.case req ran Let_def
          response_build [OF l4 rl])
  then show ?thesis
    by (simp add: response_payload_def Let_def STATUS_INTERNAL_ERROR_def)
qed

theorem C8_dispatch_response_witness:
  "process_command_packet None (replicate 512 0) scenario_handlers
     [0x49, 0x4E, 0x04, 0x00, 0x70, 0x69, 0x6E, 0x67, 0x44, 0x41, 0x00, 0x00] 0x0001
   = Returned (Some [0xAA, 0x55, 0x02, 0x11, 0x00, 0x80, 0x01, 0x00, 0x0D, 0x00,
                     0x49, 0x4E, 0x04, 0x00, 0x70, 0x69, 0x6E, 0x67, 0x53, 0x54, 0x01, 0x00, 0x00,
                     0x92, 0x03, 0x00, 0x00, 0x55, 0xAA])"
proof -
  let ?p = "[0x49, 0x4E, 0x04, 0x00, 0x70, 0x69, 0x6E, 0x67, 0x44, 0x41, 0x00, 0x00] :: byte list"
  have instr: "read_tlv_string ?p TAG_INSTRUCTION 5 = Returned (Some [0x70, 0x69, 0x6E, 0x67])"
    by (simp add: read_tlv_string_def tlv_scan.simps tag_bytes_def ascii_def of_le16_def
          tlv_value_def device_consts)
  have found: "find_handler command_table [0x70, 0x69, 0x6E, 0x67] = Some H_ping"
    by (simp add: command_table_def c_string_def ascii_def)
  have ran: "scenario_handlers H_ping (request_data_of ?p)
             = Returned \<lparr>h_result = 0, h_response = [], h_status = STATUS_OK\<rparr>"
    by (simp add: scenario_handlers_def handle_ping_def)
  have fits: "h_result \<lparr>h_result = 0, h_response = [], h_status = STATUS_OK\<rparr> < 0
              \<or> length (h_response \<lparr>h_result = 0, h_response = [], h_status = STATUS_OK\<rparr>) \<le> 225"
    by simp
  from C8_dispatch_response [where run = scenario_handlers and hcrc = None
        and temp_init = "replicate 512 0" and rid = 1, OF instr found ran fits]
  show ?thesis
    by (simp add: device_frame_def response_payload_def c_string_def ascii_def le16_def le32_def
          header_bytes_def calculate_crc32_def stuffed_def stuff_byte_def STATUS_OK_def Let_def)
qed

section \<open>The log query: properties\<close>

lemma build_log_list_breaks: "build_log_list es log_list = log_list"
  by (cases es) (simp_all add: write_tlv_uint64_def write_tlv_float32_def tag_bytes_def
        ascii_def le16_def le64_def device_consts)

text \<open>
  Claim C9 fails on the code. In the scenario the query finds exactly the entry
  (1500, 22.5), but the handler returns an \<open>LG\<close> field without any item: the item
  buffer has 16 bytes, the timestamp field takes 12 of them, and the temperature field
  (8 bytes) no longer fits, so the loop is left before the first item is appended. The
  same holds for every list of entries found.
\<close>

theorem C9_glog_returns_empty_list:
  "temp_log_get_entries glog_scenario_log 1000 2000 100
     = [\<lparr>timestamp = 1500, temperature = 0x41B40000\<rparr>]
   \<and> handle_get_log glog_scenario_log now glog_scenario_request
       = Returned \<lparr>h_result = 0, h_response = [0x4C, 0x47, 0x00, 0x00], h_status = STATUS_OK\<rparr>
   \<and> build_log_list es [] = []"
  by (simp add: build_log_list_breaks handle_get_log_def glog_scenario_request_def
        temp_log_get_entries_def get_entries_loop.simps glog_scenario_log_def MAX_LOG_ENTRIES_def
        read_tlv_uint64_def read_tlv_uint16_def tlv_scan.simps tag_bytes_def ascii_def le16_def
        of_le16_def of_le64_def tlv_value_def write_tlv_raw_def device_consts)

section \<open>Device packet ids: properties\<close>

lemma stuffed_append: "stuffed (xs @ ys) = stuffed xs @ stuffed ys"
  by (simp add: stuffed_def)

lemma escape_loop_extends:
  "escape_loop bs output_size out = Some r \<Longrightarrow> take (length out) r = out"
proof (induction bs arbitrary: out)
  case Nil
  then show ?case by simp
next
  case (Cons b bs)
  show ?case
  proof (cases "length out < output_size")
    case False
    with Cons.prems show ?thesis by simp
  next
    case True
    show ?thesis
    proof (cases "b = 0xAA \<or> b = 0x55")
      case special: True
      with Cons.prems True have "escape_loop bs output_size (out @ [b, ESCAPE_BYTE]) = Some r"
        by (simp split: if_splits)
      from Cons.IH [OF this] have "take (length out + 2) r = out @ [b, ESCAPE_BYTE]" by simp
      then have "take (length out) (take (length out + 2) r) = take (length out) (out @ [b, ESCAPE_BYTE])"
        by simp
      then show ?thesis by (simp add: min_def)
    next
      case plain: False
      with Cons.prems True have "escape_loop bs output_size (out @ [b]) = Some r"
        by simp
      from Cons.IH [OF this] have "take (length out + 1) r = out @ [b]" by simp
      then have "take (length out) (take (length out + 1) r) = take (length out) (out @ [b])"
        by simp
      then show ?thesis by (simp add: min_def)
    qed
  qed
qed

lemma escape_loop_prefix:
  "escape_loop (xs @ ys) output_size out = Some r \<Longrightarrow>
   length out + length (stuffed xs) \<le> output_size \<Longrightarrow>
   take (length out + length (stuffed xs)) r = out @ stuffed xs"
proof (induction xs arbitrary: out)
  case Nil
  from escape_loop_extends [OF Nil.prems(1) [simplified]]
  show ?case by (simp add: stuffed_def)
next
  case (Cons b xs)
  have split: "stuffed (b # xs) = stuff_byte b @ stuffed xs" by (simp add: stuffed_def)
  have pos: "1 \<le> length (stuff_byte b)" by (simp add: stuff_byte_def)
  with Cons.prems(2) have room: "length out < output_size" by (simp add: split)
  show ?case
  proof (cases "b = 0xAA \<or> b = 0x55")
    case True
    then have sb: "stuff_byte b = [b, 0x00]" by (simp add: stuff_byte_def)
    from Cons.prems(2) have fit: "length (out @ [b, ESCAPE_BYTE]) + length (stuffed xs) \<le> output_size"
      by (simp add: split sb)
    with Cons.prems(1) True room
    have "escape_loop (xs @ ys) output_size (out @ [b, ESCAPE_BYTE]) = Some r"
      by (simp split: if_splits)
    from Cons.IH [OF this fit] show ?thesis
      by (simp add: split sb ESCAPE_BYTE_def)
  next
    case False
    then have sb: "stuff_byte b = [b]" by (simp add: stuff_byte_def)
    from Cons.prems(2) have fit: "length (out @ [b]) + length (stuffed xs) \<le> output_size"
      by (simp add: split sb)
    with Cons.prems(1) False room
    have "escape_loop (xs @ ys) output_size (out @ [b]) = Some r"
      by (simp split: if_splits)
    from Cons.IH [OF this fit] show ?thesis
      by (simp add: split sb)
  qed
qed

lemma build_packet_carries_id:
  assumes "build_packet hcrc temp_init ty pid rid data output_size = Some p"
  shows "carries_packet_id p ty pid"
proof -
  define hd4 where "hd4 = [PROTOCOL_VERSION, ty] @ le16 pid"
  define rest where "rest = le16 rid @ le16 (of_nat (length data) :: 16 word) @ data
     @ le32 (calculate_crc32 hcrc
         ((header_bytes \<lparr>version = PROTOCOL_VERSION, pkt_type = ty, packet_id = pid,
             response_id = rid, data_length = of_nat (length data)\<rparr> @ data)
          @ drop (length (header_bytes \<lparr>version = PROTOCOL_VERSION, pkt_type = ty, packet_id = pid,
             response_id = rid, data_length = of_nat (length data)\<rparr> @ data)) temp_init)
         (length (header_bytes \<lparr>version = PROTOCOL_VERSION, pkt_type = ty, packet_id = pid,
             response_id = rid, data_length = of_nat (length data)\<rparr> @ data)))"
  from assms have big: "16 \<le> output_size"
    by (auto simp: build_packet_def split: if_splits)
  from assms big obtain escaped where
    esc: "escape_data (hd4 @ rest) (output_size - 2 - 2) = Some escaped"
    and p: "p = [START_MARK_1, START_MARK_2] @ escaped @ [END_MARK_1, END_MARK_2]"
    by (auto simp: build_packet_def Let_def header_bytes_def hd4_def rest_def
             split: if_splits option.splits)
  have "length (stuffed hd4) \<le> 2 * length hd4" by (rule length_stuffed_le)
  then have l8: "length (stuffed hd4) \<le> 8" by (simp add: hd4_def le16_def)
  with big have "length ([] :: byte list) + length (stuffed hd4) \<le> output_size - 2 - 2" by simp
  from escape_loop_prefix [OF esc [unfolded escape_data_def] this]
  have tk: "take (length (stuffed hd4)) escaped = stuffed hd4" by simp
  then have "length (take (length (stuffed hd4)) escaped) = length (stuffed hd4)" by simp
  then have "length (stuffed hd4) \<le> length escaped" by simp
  with tk show ?thesis
    unfolding carries_packet_id_def hd4_def [symmetric] p
    by (simp add: START_MARK_1_def START_MARK_2_def)
qed

lemma process_command_packet_id:
  assumes "process_command_packet hcrc temp_init run packet_data rid = Returned (Some p)"
  shows "carries_packet_id p PKT_TYPE_SLAVE_RESPONSE 0x8000"
proof -
  from assms obtain data where
    "build_packet hcrc temp_init PKT_TYPE_SLAVE_RESPONSE 0x8000 rid data MAX_PACKET_SIZE = Some p"
    unfolding process_command_packet_def Let_def
    by (auto split: c_result.splits option.splits if_splits)
  then show ?thesis by (rule build_packet_carries_id)
qed

lemma send_error_response_id:
  assumes "es_packet (send_error_response hcrc temp_init c rid code desc) = Some q"
  shows "carries_packet_id q PKT_TYPE_SLAVE_ERROR (packet_id_counter c)
       \<and> packet_id_counter (es_comm (send_error_response hcrc temp_init c rid code desc))
           = packet_id_counter c + 1"
proof -
  from assms obtain data where
    b: "build_packet hcrc temp_init PKT_TYPE_SLAVE_ERROR (packet_id_counter c) rid data 512 = Some q"
    and cnt: "packet_id_counter (es_comm (send_error_response hcrc temp_init c rid code desc))
           = packet_id_counter c + 1"
    unfolding send_error_response_def Let_def send_response_packet_def
    by (auto split: option.splits if_splits prod.splits)
  from build_packet_carries_id [OF b] cnt show ?thesis by simp
qed

lemma send_errors_ids:
  "\<forall>e \<in> set (send_errors hcrc temp_init c rs). es_packet e \<noteq> None \<Longrightarrow> k < length rs \<Longrightarrow>
   \<exists>q. es_packet (send_errors hcrc temp_init c rs ! k) = Some q
       \<and> carries_packet_id q PKT_TYPE_SLAVE_ERROR (packet_id_counter c + of_nat k)"
proof (induction rs arbitrary: c k)
  case Nil
  then show ?case by simp
next
  case (Cons r rs)
  obtain rid code desc where r: "r = (rid, code, desc)" by (cases r)
  let ?e = "send_error_response hcrc temp_init c rid code desc"
  from Cons.prems(1) obtain q where q: "es_packet ?e = Some q"
    by (auto simp: r Let_def)
  note first = send_error_response_id [OF q]
  show ?case
  proof (cases k)
    case 0
    with q first show ?thesis by (simp add: r Let_def)
  next
    case (Suc j)
    from Cons.prems(1) have all: "\<forall>e \<in> set (send_errors hcrc temp_init (es_comm ?e) rs). es_packet e \<noteq> None"
      by (simp add: r Let_def)
    from Cons.prems(2) Suc have "j < length rs" by simp
    from Cons.IH [OF all this] first Suc show ?thesis
      by (simp add: r Let_def ac_simps)
  qed
qed

lemma device_id_range:
  assumes "k < 0x8000"
  shows "0x8000 \<le> unat (0x8000 + of_nat k :: 16 word)"
proof -
  have "unat (0x8000 + of_nat k :: 16 word) = (0x8000 + k) mod 2 ^ 16"
    by (simp add: unat_word_ariths unat_of_nat mod_add_right_eq)
  also have "\<dots> = 0x8000 + k" using assms by simp
  finally show ?thesis by simp
qed

lemma host_id_range: "fst (getNextPacketNumber packetCounter) < 128"
  by (simp add: getNextPacketNumber_def MAX_PACKET_NUMBER_def Let_def)

text \<open>
  Claim C10. Every response packet the dispatcher builds carries packet id \<open>0x8000\<close>.
  The counter of error packets starts at \<open>0x8000\<close>; each error packet built carries the
  counter's value and leaves the counter one higher (16-bit). In a run of error reports
  that all build their packet, the \<open>k\<close>-th packet (from 0) carries \<open>0x8000 + k\<close>,
  which for \<open>k < 0x8000\<close> lies above every packet number of the host (below 128).
\<close>

theorem C10_device_packet_ids:
  "(process_command_packet hcrc temp_init run packet_data rid = Returned (Some p)
      \<longrightarrow> carries_packet_id p PKT_TYPE_SLAVE_RESPONSE 0x8000)
   \<and> packet_id_counter comm_init = 0x8000
   \<and> (es_packet (send_error_response hcrc temp_init c rid' code desc) = Some q
      \<longrightarrow> carries_packet_id q PKT_TYPE_SLAVE_ERROR (packet_id_counter c)
          \<and> packet_id_counter (es_comm (send_error_response hcrc temp_init c rid' code desc))
              = packet_id_counter c + 1)
   \<and> ((\<forall>e \<in> set (send_errors hcrc temp_init comm_init rs). es_packet e \<noteq> None)
        \<and> k < length rs \<and> k < 0x8000
      \<longrightarrow> (\<exists>q'. es_packet (send_errors hcrc temp_init comm_init rs ! k) = Some q'
                \<and> carries_packet_id q' PKT_TYPE_SLAVE_ERROR (0x8000 + of_nat k))
          \<and> fst (getNextPacketNumber packetCounter) < 128
          \<and> 128 \<le> unat (0x8000 + of_nat k :: 16 word))"
proof (intro conjI impI)
  assume "process_command_packet hcrc temp_init run packet_data rid = Returned (Some p)"
  then show "carries_packet_id p PKT_TYPE_SLAVE_RESPONSE 0x8000"
    by (rule process_command_packet_id)
next
  show "packet_id_counter comm_init = 0x8000" by (simp add: comm_init_def)
next
  assume q: "es_packet (send_error_response hcrc temp_init c rid' code desc) = Some q"
  from send_error_response_id [OF q]
  show "carries_packet_id q PKT_TYPE_SLAVE_ERROR (packet_id_counter c)"
    and "packet_id_counter (es_comm (send_error_response hcrc temp_init c rid' code desc))
              = packet_id_counter c + 1" by simp_all
next
  assume a: "(\<forall>e \<in> set (send_errors hcrc temp_init comm_init rs). es_packet e \<noteq> None)
        \<and> k < length rs \<and> k < 0x8000"
  from send_errors_ids [of hcrc temp_init comm_init rs k] a
  show "\<exists>q'. es_packet (send_errors hcrc temp_init comm_init rs ! k) = Some q'
                \<and> carries_packet_id q' PKT_TYPE_SLAVE_ERROR (0x8000 + of_nat k)"
    by (simp add: comm_init_def)
  show "fst (getNextPacketNumber packetCounter) < 128" by (rule host_id_range)
  from a device_id_range [of k] show "128 \<le> unat (0x8000 + of_nat k :: 16 word)" by simp
qed


lemmas eval_defs = process_command_packet_def read_tlv_string_def read_tlv_raw_def
  tlv_scan.simps tag_bytes_def ascii_def of_le16_def tlv_value_def device_consts
  command_table_def c_string_def scenario_handlers_def handle_ping_def
  write_tlv_string_def write_tlv_uint8_def write_tlv_raw_def build_packet_def
  header_bytes_def le16_def le32_def calculate_crc32_def escape_data_def
  send_error_response_def send_response_packet_def COMM_TX_BUFFER_SIZE_def comm_init_def

lemma scenario_ping_response:
  "process_command_packet None (replicate 512 0) scenario_handlers ping_request_payload 0x0001
   = Returned (Some [0xAA, 0x55, 0x02, 0x11, 0x00, 0x80, 0x01, 0x00, 0x0D, 0x00,
                     0x49, 0x4E, 0x04, 0x00, 0x70, 0x69, 0x6E, 0x67, 0x53, 0x54, 0x01, 0x00, 0x00,
                     0x92, 0x03, 0x00, 0x00, 0x55, 0xAA])"
  by (simp add: eval_defs ping_request_payload_def Let_def)

lemma scenario_first_error:
  "send_error_response None (replicate 512 0) comm_init 1 0x01 (Some (ascii ''Packet corrupted''))
   = \<lparr>es_result = 0,
      es_packet = Some [0xAA, 0x55, 0x02, 0x1F, 0x00, 0x80, 0x01, 0x00, 0x19, 0x00,
         0x45, 0x43, 0x01, 0x00, 0x01, 0x45, 0x44, 0x10, 0x00,
         0x50, 0x61, 0x63, 0x6B, 0x65, 0x74, 0x20, 0x63, 0x6F, 0x72, 0x72, 0x75, 0x70, 0x74, 0x65, 0x64,
         0x2E, 0x08, 0x00, 0x00, 0x55, 0xAA],
      es_transmitted = True,
      es_comm = \<lparr>packet_id_counter = 0x8001, tx_complete = False\<rparr>\<rparr>"
  by (simp add: eval_defs Let_def)

lemma scenario_second_error:
  "send_error_response None (replicate 512 0) \<lparr>packet_id_counter = 0x8001, tx_complete = False\<rparr>
      2 0xFF None
   = \<lparr>es_result = 0,
      es_packet = Some [0xAA, 0x55, 0x02, 0x1F, 0x01, 0x80, 0x02, 0x00, 0x05, 0x00,
         0x45, 0x43, 0x01, 0x00, 0xFF, 0x31, 0x02, 0x00, 0x00, 0x55, 0xAA],
      es_transmitted = False,
      es_comm = \<lparr>packet_id_counter = 0x8002, tx_complete = False\<rparr>\<rparr>"
  by (simp add: eval_defs Let_def)

theorem C10_device_packet_ids_witness:
  "carries_packet_id [0xAA, 0x55, 0x02, 0x11, 0x00, 0x80, 0x01, 0x00, 0x0D, 0x00,
                     0x49, 0x4E, 0x04, 0x00, 0x70, 0x69, 0x6E, 0x67, 0x53, 0x54, 0x01, 0x00, 0x00,
                     0x92, 0x03, 0x00, 0x00, 0x55, 0xAA] PKT_TYPE_SLAVE_RESPONSE 0x8000
   \<and> carries_packet_id [0xAA, 0x55, 0x02, 0x1F, 0x00, 0x80, 0x01, 0x00, 0x19, 0x00,
         0x45, 0x43, 0x01, 0x00, 0x01, 0x45, 0x44, 0x10, 0x00,
         0x50, 0x61, 0x63, 0x6B, 0x65, 0x74, 0x20, 0x63, 0x6F, 0x72, 0x72, 0x75, 0x70, 0x74, 0x65, 0x64,
         0x2E, 0x08, 0x00, 0x00, 0x55, 0xAA] PKT_TYPE_SLAVE_ERROR 0x8000
   \<and> (\<exists>q'. es_packet (send_errors None (replicate 512 0) comm_init scenario_errors ! 1) = Some q'
            \<and> carries_packet_id q' PKT_TYPE_SLAVE_ERROR 0x8001)
   \<and> fst (getNextPacketNumber 127) < 128"
proof -
  have all: "\<forall>e \<in> set (send_errors None (replicate 512 0) comm_init scenario_errors). es_packet e \<noteq> None"
    by (simp add: scenario_errors_def scenario_first_error scenario_second_error Let_def)
  have k: "(1::nat) < length scenario_errors" "(1::nat) < 0x8000"
    by (simp_all add: scenario_errors_def)
  from C10_device_packet_ids [where hcrc = None and temp_init = "replicate 512 0"
      and run = scenario_handlers and packet_data = ping_request_payload and rid = 1
      and c = comm_init and rid' = 1 and code = 1 and desc = "Some (ascii ''Packet corrupted'')"
      and rs = scenario_errors and k = 1 and packetCounter = 127
      and p = "[0xAA, 0x55, 0x02, 0x11, 0x00, 0x80, 0x01, 0x00, 0x0D, 0x00,
                     0x49, 0x4E, 0x04, 0x00, 0x70, 0x69, 0x6E, 0x67, 0x53, 0x54, 0x01, 0x00, 0x00,
                     0x92, 0x03, 0x00, 0x00, 0x55, 0xAA]"
      and q = "[0xAA, 0x55, 0x02, 0x1F, 0x00, 0x80, 0x01, 0x00, 0x19, 0x00,
         0x45, 0x43, 0x01, 0x00, 0x01, 0x45, 0x44, 0x10, 0x00,
         0x50, 0x61, 0x63, 0x6B, 0x65, 0x74, 0x20, 0x63, 0x6F, 0x72, 0x72, 0x75, 0x70, 0x74, 0x65, 0x64,
         0x2E, 0x08, 0x00, 0x00, 0x55, 0xAA]"]
    all k
  show ?thesis
    by (simp add: scenario_ping_response scenario_first_error [unfolded comm_init_def]
          comm_init_def)
qed

section \<open>Request tracking: properties\<close>

text \<open>
  Claim C1, as stated, fails: a second \<^verbatim>\<open>sendRequest\<close> for \<open>temp\<close> while the first
  is pending returns a promise like the first, and the entry tracked under \<open>temp\<close> is
  then the second request's.
\<close>

theorem C1_second_send_replaces:
  "fst (sendRequest manager0 [] ''temp'') = Inr 0
   \<and> pendingRequests (snd (sendRequest manager0 [] ''temp'')) ''temp''
       = Some \<lparr>p_promise = 0, p_timeout = 0, p_command = ''temp''\<rparr>
   \<and> fst (sendRequest (snd (sendRequest manager0 [] ''temp'')) [] ''temp'') = Inr 1
   \<and> pendingRequests (snd (sendRequest (snd (sendRequest manager0 [] ''temp'')) [] ''temp'')) ''temp''
       = Some \<lparr>p_promise = 1, p_timeout = 1, p_command = ''temp''\<rparr>"
  by (simp add: sendRequest_def manager0_def Let_def)

text \<open>
  Claim C1, amended. On a connected manager, a send for a command that already has a
  pending entry is accepted like any other: it returns a new promise and stores the new
  request under the command key in place of the old entry, without settling any promise
  and without disarming the old timer. The pending table is a map, so it holds at most
  one entry per command key at any time.
\<close>

theorem C1_second_send_accepted:
  assumes "connected m" and "pendingRequests m command = Some e"
      and "p_promise e < next_id m"
  shows "fst (sendRequest m requestData command) = Inr (next_id m)
       \<and> pendingRequests (snd (sendRequest m requestData command))
           = (pendingRequests m)(command \<mapsto>
                \<lparr>p_promise = next_id m, p_timeout = next_id m, p_command = command\<rparr>)
       \<and> pendingRequests (snd (sendRequest m requestData command)) command \<noteq> Some e
       \<and> promises (snd (sendRequest m requestData command)) = promises m
       \<and> timers (snd (sendRequest m requestData command)) = insert (next_id m) (timers m)"
  using assms by (auto simp: sendRequest_def Let_def)

theorem C1_second_send_accepted_witness:
  "fst (sendRequest (snd (sendRequest manager0 [] ''temp'')) [] ''temp'') = Inr 1
   \<and> pendingRequests (snd (sendRequest (snd (sendRequest manager0 [] ''temp'')) [] ''temp'')) ''temp''
       \<noteq> Some \<lparr>p_promise = 0, p_timeout = 0, p_command = ''temp''\<rparr>
   \<and> promises (snd (sendRequest (snd (sendRequest manager0 [] ''temp'')) [] ''temp'')) = Map.empty
   \<and> timers (snd (sendRequest (snd (sendRequest manager0 [] ''temp'')) [] ''temp'')) = {0, 1}"
proof -
  let ?m1 = "snd (sendRequest manager0 [] ''temp'')"
  have c: "connected ?m1" by (simp add: sendRequest_def manager0_def Let_def)
  have p: "pendingRequests ?m1 ''temp'' = Some \<lparr>p_promise = 0, p_timeout = 0, p_command = ''temp''\<rparr>"
    by (simp add: sendRequest_def manager0_def Let_def)
  have n: "p_promise \<lparr>p_promise = 0, p_timeout = 0, p_command = ''temp''\<rparr> < next_id ?m1"
    by (simp add: sendRequest_def manager0_def Let_def)
  have t: "timers ?m1 = {0}" "promises ?m1 = Map.empty" "next_id ?m1 = 1"
    by (simp_all add: sendRequest_def manager0_def Let_def)
  from C1_second_send_accepted [OF c p n, of "[]"] t show ?thesis by auto
qed

section \<open>CRC32 and little-endian fields: properties\<close>

lemma crc_shift_bit:
  "crc_shift x = (if bit x 31 then push_bit 1 x XOR polynomial else push_bit 1 x)"
proof -
  have "x AND 2 ^ 31 = 0 \<longleftrightarrow> \<not> bit x 31" by (rule and_exp_eq_0_iff_not_bit)
  then show ?thesis by (simp add: crc_shift_def)
qed

lemma crc_shift_xor:
  assumes "\<not> bit y 31"
  shows "crc_shift (x XOR y) = crc_shift x XOR push_bit 1 y"
  using assms by (simp add: crc_shift_bit bit_xor_iff xor.assoc xor.commute xor.left_commute)

lemma crc_shifts_xor:
  "k \<le> 32 \<Longrightarrow> drop_bit (32 - k) y = 0 \<Longrightarrow>
   (crc_shift ^^ k) (x XOR y) = (crc_shift ^^ k) x XOR push_bit k (y :: 32 word)"
proof (induction k arbitrary: x y)
  case 0
  then show ?case by simp
next
  case (Suc k)
  have top: "\<not> bit y 31"
  proof
    assume "bit y 31"
    then have "bit (drop_bit (32 - Suc k) y) k"
      using Suc.prems(1) by (simp add: bit_drop_bit_eq)
    with Suc.prems(2) show False by simp
  qed
  have low: "drop_bit (32 - k) (push_bit 1 y) = 0"
  proof (rule bit_word_eqI)
    fix n assume "n < LENGTH(32)"
    have "\<not> bit (drop_bit (32 - Suc k) y) n" using Suc.prems(2) by simp
    then have "\<not> bit y (31 - k + n)" by (simp add: bit_drop_bit_eq)
    moreover have "32 - k + n - 1 = 31 - k + n" using Suc.prems(1) by simp
    moreover have "bit (push_bit 1 y) (32 - k + n)
        \<longleftrightarrow> 1 \<le> 32 - k + n \<and> possible_bit TYPE(32 word) (32 - k + n) \<and> bit y (32 - k + n - 1)"
      by (rule bit_push_bit_iff)
    ultimately have "\<not> bit (push_bit 1 y) (32 - k + n)" by simp
    moreover have "bit (drop_bit (32 - k) (push_bit 1 y)) n = bit (push_bit 1 y) (32 - k + n)"
      by (simp only: bit_drop_bit_eq comp_apply)
    ultimately show "bit (drop_bit (32 - k) (push_bit 1 y)) n = bit (0 :: 32 word) n"
      by simp
  qed
  have "(crc_shift ^^ Suc k) (x XOR y) = (crc_shift ^^ k) (crc_shift (x XOR y))"
    by (simp add: funpow_swap1)
  also have "\<dots> = (crc_shift ^^ k) (crc_shift x XOR push_bit 1 y)"
    by (simp add: crc_shift_xor [OF top])
  also have "\<dots> = (crc_shift ^^ k) (crc_shift x) XOR push_bit k (push_bit 1 y)"
    using Suc.prems(1) by (intro Suc.IH [OF _ low]) simp
  also have "\<dots> = (crc_shift ^^ Suc k) x XOR push_bit (Suc k) y"
    by (simp add: funpow_swap1)
  finally show ?case .
qed

lemma crc32Table_nth: "i < 256 \<Longrightarrow> crc32Table ! i = (crc_shift ^^ 8) (push_bit 24 (of_nat i))"
  by (simp add: crc32Table_def)

lemma crc_update_bitwise: "crc_update crc b = crc_byte crc b"
proof -
  define index :: "32 word" where "index = (drop_bit 24 crc XOR ucast b) AND 0xFF"
  have idx: "unat index < 256"
  proof -
    have "index \<le> 0xFF" unfolding index_def by (rule word_and_le1)
    then show ?thesis by (simp add: word_le_nat_alt)
  qed
  have tab: "crc32Table ! unat index = (crc_shift ^^ 8) (push_bit 24 index)"
    using crc32Table_nth [OF idx] by simp
  have "(0xFF :: 32 word) = mask 8" by (simp add: mask_eq_exp_minus_1)
  then have index_take: "index = take_bit 8 (drop_bit 24 crc XOR ucast b)"
    by (simp only: index_def take_bit_eq_mask)
  have split: "crc XOR push_bit 24 (ucast b) = push_bit 24 index XOR take_bit 24 crc"
    unfolding index_take
    by (rule bit_word_eqI) (auto simp: bit_simps)
  have low: "drop_bit (32 - 8) (take_bit 24 crc) = 0"
    by (rule bit_word_eqI) (auto simp: bit_simps)
  have "(crc_shift ^^ 8) (crc XOR push_bit 24 (ucast b))
        = (crc_shift ^^ 8) (push_bit 24 index) XOR push_bit 8 (take_bit 24 crc)"
    unfolding split by (rule crc_shifts_xor [OF _ low]) simp
  also have "push_bit 8 (take_bit 24 crc) = push_bit 8 crc"
    by (rule bit_word_eqI) (auto simp: bit_simps)
  finally have "(crc_shift ^^ 8) (crc XOR push_bit 24 (ucast b))
        = push_bit 8 crc XOR crc32Table ! unat index"
    by (simp add: tab xor.commute)
  moreover have "crc_update crc b = push_bit 8 crc XOR crc32Table ! unat index"
    by (simp only: crc_update_def Let_def index_def)
  ultimately show ?thesis by (simp add: crc_byte_def)
qed

lemma calculateCRC32_bitwise: "calculateCRC32 data = sint (crc32_bitwise data)"
proof -
  have "foldl crc_update c data = foldl crc_byte c data" for c
    by (induction data arbitrary: c) (simp_all add: crc_update_bitwise)
  then show ?thesis by (simp add: calculateCRC32_def crc32_bitwise_def)
qed


lemma crc_shift8:
  "(crc_shift ^^ 8) x = crc_shift (crc_shift (crc_shift (crc_shift
     (crc_shift (crc_shift (crc_shift (crc_shift x)))))))"
  by (simp add: eval_nat_numeral funpow_swap1)

lemmas crc_eval = crc32_bitwise_def crc_byte_def crc_shift8 crc_shift_def polynomial_def

lemma of_le16_le16: "of_le16 (le16 w) = w"
  unfolding of_le16_def le16_def
  by (rule bit_word_eqI) (auto simp: bit_simps)


lemma add_diff_max: "k + (n - k) = max k (n :: nat)"
  by simp

lemma of_le32_le32: "of_le32 (le32 w) = w"
  unfolding of_le32_def le32_def
  by (rule bit_word_eqI) (auto simp: bit_simps add_diff_max max_def not_less)

lemma of_le64_le64: "of_le64 (le64 w) = w"
  unfolding of_le64_def le64_def
  by (rule bit_word_eqI) (auto simp: bit_simps add_diff_max max_def not_less)

lemma byte_bit_less: "bit (b :: byte) n \<Longrightarrow> n < 8"
  using bit_imp_le_length [of b n] by simp

lemma byte_high_bit [simp]: "\<not> bit (b :: byte) (8 + n)"
  using byte_bit_less [of b "8 + n"] by auto

lemma ucast_byte_or8:
  "ucast (ucast lo OR push_bit 8 (ucast (hi :: byte)) :: 16 word) = (lo :: byte)"
  by (rule bit_word_eqI) (auto simp: bit_simps)

lemma ucast_byte_drop8:
  "ucast (drop_bit 8 (ucast (lo :: byte) OR push_bit 8 (ucast hi) :: 16 word)) = (hi :: byte)"
  by (rule bit_word_eqI) (auto simp: bit_simps)

lemma le16_of_le16: "length bs = 2 \<Longrightarrow> le16 (of_le16 bs) = bs"
  unfolding le16_def of_le16_def
  by (cases bs; cases "tl bs") (simp_all only: ucast_byte_or8 ucast_byte_drop8 nth_Cons_0 nth_Cons_Suc One_nat_def list.sel length_Cons list.size, auto)

lemma of_nat_getUint16: "(of_nat (getUint16 lo hi) :: 16 word) = ucast lo OR push_bit 8 (ucast hi)"
proof -
  have "(of_nat (getUint16 lo hi) :: 16 word) = ucast lo + push_bit 8 (ucast hi)"
    by (simp add: getUint16_def push_bit_eq_mult)
  also have "\<dots> = ucast lo OR push_bit 8 (ucast hi)"
    by (rule disjunctive_add) (auto simp: bit_simps dest: byte_bit_less)
  finally show ?thesis .
qed

lemma le16_getUint16: "le16 (of_nat (getUint16 lo hi)) = [lo, hi]"
  by (simp only: of_nat_getUint16 le16_def ucast_byte_or8 ucast_byte_drop8)

lemma getUint16_bound: "getUint16 lo hi < 65536"
proof -
  have "unat lo < 256" "unat hi < 256"
    using unsigned_less [of lo] unsigned_less [of hi] by simp_all
  then show ?thesis by (simp add: getUint16_def)
qed

lemma getUint16_le16: "getUint16 (ucast w) (ucast (drop_bit 8 w)) = unat (w :: 16 word)"
proof -
  have "le16 (of_nat (getUint16 (ucast w) (ucast (drop_bit 8 w)))) = le16 w"
    by (simp only: le16_getUint16) (simp only: le16_def)
  then have "of_le16 (le16 (of_nat (getUint16 (ucast w) (ucast (drop_bit 8 w))))) = of_le16 (le16 w)"
    by simp
  then have "(of_nat (getUint16 (ucast w) (ucast (drop_bit 8 w))) :: 16 word) = w"
    by (simp only: of_le16_le16)
  then have "unat (of_nat (getUint16 (ucast w) (ucast (drop_bit 8 w))) :: 16 word) = unat w"
    by simp
  then show ?thesis
    using getUint16_bound [of "ucast w" "ucast (drop_bit 8 w)"]
    by (simp add: unat_of_nat)
qed

lemma sint_eq_uint_imp:
  fixes c r :: "32 word"
  assumes "sint c = uint r"
  shows "c = r"
proof -
  have "c = word_of_int (sint c)" by simp
  also have "\<dots> = word_of_int (uint r)" by (simp only: assms)
  also have "\<dots> = r" by simp
  finally show ?thesis .
qed


lemma encodePacket_frame:
  assumes "encode_fields data = Inr payload"
  shows "fst (encodePacket packetCounter type data rid)
         = Inr ([0xAA, 0x55]
                @ v2_header VERSION (of_int type) (of_nat (fst (getNextPacketNumber packetCounter)))
                    (of_int rid) (of_nat (length payload))
                @ payload
                @ le32 (crc32_bitwise
                    (v2_header VERSION (of_int type)
                       (of_nat (fst (getNextPacketNumber packetCounter)))
                       (of_int rid) (of_nat (length payload)) @ payload))
                @ [0x55, 0xAA])"
  using assms
  by (simp add: encodePacket_def Let_def v2_header_def calculateCRC32_bitwise
        split: prod.splits)

lemma decodePacket_checks_crc:
  assumes "decodePacket buffer = Inr p"
  shows "of_le32 (take 4 (drop (10 + getUint16 (buffer ! 8) (buffer ! 9)) buffer))
         = crc32_bitwise (take (8 + getUint16 (buffer ! 8) (buffer ! 9)) (drop 2 buffer))"
proof -
  define n where "n = getUint16 (buffer ! 8) (buffer ! 9)"
  from assms have len: "16 \<le> length buffer" "10 + n + 4 + 2 \<le> length buffer"
    by (auto simp: decodePacket_def Let_def n_def split: if_splits sum.splits)
  have step: "\<And>i. i < length buffer \<Longrightarrow> drop i buffer = buffer ! i # drop (i + 1) buffer"
    by (simp add: Cons_nth_drop_Suc)
  have "drop 2 buffer = buffer ! 2 # buffer ! 3 # buffer ! 4 # buffer ! 5 # buffer ! 6
          # buffer ! 7 # buffer ! 8 # buffer ! 9 # drop 10 buffer"
    using len(1) step [of 2] step [of 3] step [of 4] step [of 5] step [of 6] step [of 7]
      step [of 8] step [of 9] by simp
  then have hdr: "[buffer ! 2, buffer ! 3] @ le16 (of_nat (getUint16 (buffer ! 4) (buffer ! 5)))
        @ le16 (of_nat (getUint16 (buffer ! 6) (buffer ! 7)))
        @ le16 (of_nat (getUint16 (buffer ! 8) (buffer ! 9))) = take 8 (drop 2 buffer)"
    by (simp add: le16_getUint16)
  have dom: "take 8 (drop 2 buffer) @ take n (drop 10 buffer) = take (8 + n) (drop 2 buffer)"
  proof -
    have "take (8 + n) (drop 2 buffer) = take 8 (drop 2 buffer) @ take n (drop 8 (drop 2 buffer))"
      by (simp add: take_add)
    then show ?thesis by simp
  qed
  have crcData: "[buffer ! 2, buffer ! 3] @ le16 (of_nat (getUint16 (buffer ! 4) (buffer ! 5)))
        @ le16 (of_nat (getUint16 (buffer ! 6) (buffer ! 7)))
        @ le16 (of_nat n) @ take n (drop 10 buffer) = take (8 + n) (drop 2 buffer)"
  proof -
    have "[buffer ! 2, buffer ! 3] @ le16 (of_nat (getUint16 (buffer ! 4) (buffer ! 5)))
        @ le16 (of_nat (getUint16 (buffer ! 6) (buffer ! 7)))
        @ le16 (of_nat n) @ take n (drop 10 buffer)
      = ([buffer ! 2, buffer ! 3] @ le16 (of_nat (getUint16 (buffer ! 4) (buffer ! 5)))
        @ le16 (of_nat (getUint16 (buffer ! 6) (buffer ! 7)))
        @ le16 (of_nat (getUint16 (buffer ! 8) (buffer ! 9)))) @ take n (drop 10 buffer)"
      by (simp add: n_def)
    also have "\<dots> = take 8 (drop 2 buffer) @ take n (drop 10 buffer)"
      by (simp only: hdr)
    also have "\<dots> = take (8 + n) (drop 2 buffer)" by (rule dom)
    finally show ?thesis .
  qed
  from assms len have "calculateCRC32 ([buffer ! 2, buffer ! 3]
        @ le16 (of_nat (getUint16 (buffer ! 4) (buffer ! 5)))
        @ le16 (of_nat (getUint16 (buffer ! 6) (buffer ! 7)))
        @ le16 (of_nat n) @ take n (drop 10 buffer))
        = uint (of_le32 (take 4 (drop (10 + n) buffer)))"
    unfolding decodePacket_def Let_def n_def [symmetric]
    by (simp split: if_splits sum.splits)
  then have "calculateCRC32 (take (8 + n) (drop 2 buffer))
        = uint (of_le32 (take 4 (drop (10 + n) buffer)))"
    by (simp only: crcData)
  then have "sint (crc32_bitwise (take (8 + n) (drop 2 buffer)))
        = uint (of_le32 (take 4 (drop (10 + n) buffer)))"
    by (simp add: calculateCRC32_bitwise)
  from sint_eq_uint_imp [OF this] show ?thesis by (simp add: n_def)
qed

lemmas text_eval = js_def TextEncoder_encode_def utf8_of_code_point_def is_high_surrogate_def
  is_low_surrogate_def TextDecoder_decode_def utf8_decode_loop.simps utf16_of_code_point_def

lemma ping_fields_bytes:
  "encode_fields ping_fields
   = Inr [0x49, 0x4E, 0x04, 0x00, 0x70, 0x69, 0x6E, 0x67, 0x44, 0x41, 0x00, 0x00]"
  by (simp add: ping_fields_def text_eval le16_def)

lemma ping_payload_fields:
  "decode_fields [0x49, 0x4E, 0x04, 0x00, 0x70, 0x69, 0x6E, 0x67, 0x44, 0x41, 0x00, 0x00] 0 []
   = Inr ping_fields"
  by (simp add: ping_fields_def decode_fields.simps decodeTLV.simps tag_kind_of_def getUint16_def
        text_eval Let_def)

lemma ping_crc_1:
  "crc32_bitwise [0x02, 0x00, 0x01, 0x00, 0x00, 0x00, 0x0C, 0x00,
     0x49, 0x4E, 0x04, 0x00, 0x70, 0x69, 0x6E, 0x67, 0x44, 0x41, 0x00, 0x00] = 0xC01209BA"
  by (simp add: crc_eval)

lemma ping_crc_2:
  "crc32_bitwise [0x02, 0x00, 0x02, 0x00, 0x00, 0x00, 0x0C, 0x00,
     0x49, 0x4E, 0x04, 0x00, 0x70, 0x69, 0x6E, 0x67, 0x44, 0x41, 0x00, 0x00] = 0x477B6E92"
  by (simp add: crc_eval)

lemma createPingRequest_0: "createPingRequest 0 = (Inr ping_frame, 1)"
  by (simp add: createPingRequest_def ping_fields_def [symmetric] encodePacket_def
        ping_fields_bytes getNextPacketNumber_def MAX_PACKET_NUMBER_def VERSION_def le16_def
        le32_def calculateCRC32_bitwise ping_crc_1 ping_frame_def Let_def)

lemma encode_ping_2: "encodePacket 1 0 ping_fields 0 = (Inr ping_frame_2, 2)"
  by (simp add: encodePacket_def ping_fields_bytes getNextPacketNumber_def MAX_PACKET_NUMBER_def
        VERSION_def le16_def le32_def calculateCRC32_bitwise ping_crc_2 ping_frame_2_def Let_def)

lemma decode_ping_frame_2:
  "decodePacket ping_frame_2
   = Inr \<lparr>p_version = 2, p_type = 0, packetNumber = 2, responseNumber = 0, p_data = ping_fields\<rparr>"
  by (simp add: decodePacket_def ping_frame_2_def getUint16_def ping_payload_fields le16_def
        of_le32_def calculateCRC32_bitwise ping_crc_2 Let_def)

text \<open>
  The frame of the concrete scenario is rejected by \<^verbatim>\<open>decodePacket\<close>: its checksum
  \<open>0xC01209BA\<close> has the top bit set, \<^verbatim>\<open>calculateCRC32\<close> returns it as a negative
  number, and the comparison with the unsigned field fails.
\<close>

lemma decode_ping_frame: "decodePacket ping_frame = Inl CRC32_mismatch"
  by (simp add: decodePacket_def ping_frame_def getUint16_def ping_payload_fields le16_def
        of_le32_def calculateCRC32_bitwise ping_crc_1 Let_def)

section \<open>The ping request frame\<close>

text \<open>
  Claim C2, as stated, fails: the frame of a ping request with packet number 1 has 28
  bytes, not 18 (and its length field is \<open>0C 00\<close>, the 12 bytes of the two fields).
\<close>

theorem C2_ping_frame_length:
  "fst (createPingRequest 0) = Inr ping_frame \<and> length ping_frame = 28"
  by (simp add: createPingRequest_0) (simp add: ping_frame_def)

text \<open>
  Claim C2, amended. On a fresh service (counter 0, so packet number 1) the ping request
  is the 28-byte frame \<open>AA 55 02 00 01 00 00 00 0C 00\<close>, the \<open>IN\<close> field with the 4
  bytes "ping", the empty \<open>DA\<close> field, the CRC32 of the 20 bytes between the start marker
  and the checksum, and \<open>55 AA\<close>; its header reads type \<open>0x00\<close> and packet number 1, and
  its payload bytes decode to the fields \<open>IN\<close> = "ping" and \<open>DA\<close> = \<open>[]\<close>.
\<close>

theorem C2_ping_request_frame:
  "createPingRequest 0 = (Inr ping_frame, 1)
   \<and> ping_frame = [0xAA, 0x55, 0x02, 0x00, 0x01, 0x00, 0x00, 0x00, 0x0C, 0x00]
                  @ [0x49, 0x4E, 0x04, 0x00, 0x70, 0x69, 0x6E, 0x67]
                  @ [0x44, 0x41, 0x00, 0x00]
                  @ le32 (crc32_bitwise (take 20 (drop 2 ping_frame)))
                  @ [0x55, 0xAA]
   \<and> length ping_frame = 28
   \<and> unat (ping_frame ! 3) = 0x00
   \<and> getUint16 (ping_frame ! 4) (ping_frame ! 5) = 1
   \<and> decode_fields (take (getUint16 (ping_frame ! 8) (ping_frame ! 9)) (drop 10 ping_frame)) 0 []
       = Inr [(js ''IN'', JString (js ''ping'')), (js ''DA'', JArray [])]"
  by (simp add: createPingRequest_0)
     (simp add: ping_frame_def getUint16_def ping_payload_fields ping_crc_1 le32_def
        ping_fields_def [symmetric])

section \<open>The frame checksum\<close>

text \<open>
  Claim C5, as stated for every v2 frame, fails on the device: when the CRC peripheral
  is not initialised, \<^verbatim>\<open>calculate_crc32\<close> returns the sum of the bytes, and the frame
  built for a ping response carries \<open>0x00000392\<close> where the CRC32 of its header and
  payload is \<open>0xEED25EB2\<close>.
\<close>

theorem C5_device_checksum_is_byte_sum:
  "process_command_packet None (replicate 512 0) scenario_handlers ping_request_payload 0x0001
     = Returned (Some ([0xAA, 0x55] @ ping_response_body @ le32 0x00000392 @ [0x55, 0xAA]))
   \<and> calculate_crc32 None ping_response_body (length ping_response_body) = 0x00000392
   \<and> crc32_bitwise ping_response_body = 0xEED25EB2"
  by (simp add: scenario_ping_response)
     (simp add: ping_response_body_def le32_def calculate_crc32_def crc_eval)

text \<open>
  Claim C5, amended to the host codec. For every byte sequence the table-driven
  \<^verbatim>\<open>calculateCRC32\<close> returns the bitwise CRC32 (as a signed 32-bit number); the
  checksum \<^verbatim>\<open>encodePacket\<close> places in a frame is that CRC32 of the 8 header bytes
  followed by the payload bytes; and every frame \<^verbatim>\<open>decodePacket\<close> accepts carries
  that CRC32 of its own 8 header bytes and payload.
\<close>

theorem C5_host_crc32:
  "calculateCRC32 bytes = sint (crc32_bitwise bytes)
   \<and> (encode_fields data = Inr payload \<longrightarrow>
        fst (encodePacket packetCounter ty data rid)
        = Inr ([0xAA, 0x55]
               @ v2_header VERSION (of_int ty) (of_nat (fst (getNextPacketNumber packetCounter)))
                   (of_int rid) (of_nat (length payload))
               @ payload
               @ le32 (crc32_bitwise
                   (v2_header VERSION (of_int ty)
                      (of_nat (fst (getNextPacketNumber packetCounter)))
                      (of_int rid) (of_nat (length payload)) @ payload))
               @ [0x55, 0xAA]))
   \<and> (decodePacket buffer = Inr p \<longrightarrow>
        of_le32 (take 4 (drop (10 + getUint16 (buffer ! 8) (buffer ! 9)) buffer))
        = crc32_bitwise (take (8 + getUint16 (buffer ! 8) (buffer ! 9)) (drop 2 buffer)))"
  using calculateCRC32_bitwise encodePacket_frame decodePacket_checks_crc by blast



theorem C5_host_crc32_witness:
  "fst (encodePacket 1 0 ping_fields 0)
     = Inr ([0xAA, 0x55, 0x02, 0x00, 0x02, 0x00, 0x00, 0x00, 0x0C, 0x00,
             0x49, 0x4E, 0x04, 0x00, 0x70, 0x69, 0x6E, 0x67, 0x44, 0x41, 0x00, 0x00]
            @ le32 (crc32_bitwise [0x02, 0x00, 0x02, 0x00, 0x00, 0x00, 0x0C, 0x00,
                      0x49, 0x4E, 0x04, 0x00, 0x70, 0x69, 0x6E, 0x67, 0x44, 0x41, 0x00, 0x00])
            @ [0x55, 0xAA])
   \<and> of_le32 [0x92, 0x6E, 0x7B, 0x47]
       = crc32_bitwise [0x02, 0x00, 0x02, 0x00, 0x00, 0x00, 0x0C, 0x00,
                        0x49, 0x4E, 0x04, 0x00, 0x70, 0x69, 0x6E, 0x67, 0x44, 0x41, 0x00, 0x00]"
proof -
  note T = C5_host_crc32 [where data = ping_fields and packetCounter = 1 and ty = 0 and rid = 0
      and payload = "[0x49, 0x4E, 0x04, 0x00, 0x70, 0x69, 0x6E, 0x67, 0x44, 0x41, 0x00, 0x00]"
      and buffer = ping_frame_2
      and p = "\<lparr>p_version = 2, p_type = 0, packetNumber = 2, responseNumber = 0,
                p_data = ping_fields\<rparr>"]
  from T ping_fields_bytes have
    "fst (encodePacket 1 0 ping_fields 0)
     = Inr ([0xAA, 0x55]
            @ v2_header VERSION 0 (of_nat (fst (getNextPacketNumber 1))) 0 12
            @ [0x49, 0x4E, 0x04, 0x00, 0x70, 0x69, 0x6E, 0x67, 0x44, 0x41, 0x00, 0x00]
            @ le32 (crc32_bitwise (v2_header VERSION 0 (of_nat (fst (getNextPacketNumber 1))) 0 12
                 @ [0x49, 0x4E, 0x04, 0x00, 0x70, 0x69, 0x6E, 0x67, 0x44, 0x41, 0x00, 0x00]))
            @ [0x55, 0xAA])"
    by simp
  moreover from T decode_ping_frame_2 have
    "of_le32 (take 4 (drop (10 + getUint16 (ping_frame_2 ! 8) (ping_frame_2 ! 9)) ping_frame_2))
     = crc32_bitwise (take (8 + getUint16 (ping_frame_2 ! 8) (ping_frame_2 ! 9)) (drop 2 ping_frame_2))"
    by blast
  ultimately show ?thesis
    by (simp add: v2_header_def VERSION_def getNextPacketNumber_def MAX_PACKET_NUMBER_def
          le16_def ping_frame_2_def getUint16_def)
qed

section \<open>TextEncoder and TextDecoder: round trip\<close>

lemma unat16_less: "unat (u :: 16 word) < 65536"
  using unsigned_less [of u] by simp

lemma high_surrogate_unat: "is_high_surrogate u \<longleftrightarrow> 0xD800 \<le> unat u \<and> unat u \<le> 0xDBFF"
  by (simp add: is_high_surrogate_def word_le_nat_alt)

lemma low_surrogate_unat: "is_low_surrogate u \<longleftrightarrow> 0xDC00 \<le> unat u \<and> unat u \<le> 0xDFFF"
  by (simp add: is_low_surrogate_def word_le_nat_alt)

lemma utf16_pair:
  assumes "is_high_surrogate a" "is_low_surrogate b"
  shows "utf16_of_code_point (0x10000 + (unat a - 0xD800) * 0x400 + (unat b - 0xDC00)) = [a, b]"
proof -
  define x where "x = unat a - 0xD800"
  define y where "y = unat b - 0xDC00"
  from assms have ab: "0xD800 \<le> unat a" "0xDC00 \<le> unat b" "unat b \<le> 0xDFFF"
    by (simp_all add: high_surrogate_unat low_surrogate_unat)
  then have a: "unat a = 0xD800 + x" and b: "unat b = 0xDC00 + y" and y: "y < 0x400"
    unfolding x_def y_def by linarith+
  have d: "(x * 0x400 + y) div 0x400 = x" and m: "(x * 0x400 + y) mod 0x400 = y"
    using y by simp_all
  have "utf16_of_code_point (0x10000 + x * 0x400 + y) = [of_nat (unat a), of_nat (unat b)]"
    unfolding a b using y by (simp add: utf16_of_code_point_def d m)
  then show ?thesis by (simp add: x_def y_def)
qed

lemma utf16_code_points:
  "well_formed s \<Longrightarrow> concat (map utf16_of_code_point (code_points s)) = s"
proof (induction s rule: code_points.induct)
  case (1 a b rest)
  show ?case
  proof (cases "is_high_surrogate a")
    case True
    with 1 show ?thesis by (simp add: utf16_pair)
  next
    case False
    with 1 show ?thesis
      using unat16_less [of a] by (simp add: utf16_of_code_point_def)
  qed
next
  case (2 a)
  then show ?case using unat16_less [of a] by (simp add: utf16_of_code_point_def)
next
  case 3
  then show ?case by simp
qed

lemma scalar_pair:
  assumes "is_high_surrogate a" "is_low_surrogate b"
  shows "scalar (0x10000 + (unat a - 0xD800) * 0x400 + (unat b - 0xDC00))"
proof -
  define x where "x = unat a - 0xD800"
  define y where "y = unat b - 0xDC00"
  from assms have "unat a \<le> 0xDBFF" "unat b \<le> 0xDFFF"
    by (simp_all add: high_surrogate_unat low_surrogate_unat)
  then have "x < 0x400" "y < 0x400" unfolding x_def y_def by linarith+
  then have "0x10000 + x * 0x400 + y < 0x110000" "0xDFFF < 0x10000 + x * 0x400 + y" by linarith+
  then show ?thesis unfolding scalar_def x_def y_def by linarith
qed

lemma scalar_unit:
  assumes "\<not> is_high_surrogate a" "\<not> is_low_surrogate a"
  shows "scalar (unat a)"
  using assms unat16_less [of a]
  unfolding scalar_def high_surrogate_unat low_surrogate_unat by linarith

lemma scalar_FFFD: "scalar 0xFFFD"
  by (simp add: scalar_def)

lemma code_points_scalar: "cp \<in> set (code_points s) \<Longrightarrow> scalar cp"
proof (induction s arbitrary: cp rule: code_points.induct)
  case (1 a b rest)
  show ?case
  proof (cases "is_high_surrogate a \<and> is_low_surrogate b")
    case True
    with 1 show ?thesis using scalar_pair [of a b] by auto
  next
    case nopair: False
    show ?thesis
    proof (cases "is_high_surrogate a \<or> is_low_surrogate a")
      case True
      with nopair 1 show ?thesis using scalar_FFFD by auto
    next
      case False
      with nopair 1 show ?thesis using scalar_unit [of a] by auto
    qed
  qed
next
  case (2 a)
  then show ?case
    using scalar_unit [of a] scalar_FFFD by (auto split: if_splits)
next
  case 3
  then show ?case by simp
qed

lemma unat_byte_of_nat: "n < 256 \<Longrightarrow> unat (of_nat n :: byte) = n"
  by (simp add: unsigned_of_nat take_bit_nat_eq_self)

lemma mod_base: "a < m \<Longrightarrow> (k * m + a) mod m = (a :: nat)"
  by simp

lemma utf8_decode_1:
  assumes "unat x = a" "a < 0x80"
  shows "utf8_decode_loop (x # rest) 0 0 0 0x80 0xBF = a # utf8_decode_loop rest 0 0 0 0x80 0xBF"
  using assms by (subst utf8_decode_loop.simps) (simp add: Let_def)

lemma utf8_decode_2:
  assumes u: "unat x = 0xC0 + a" "unat y = 0x80 + b"
    and r: "2 \<le> a" "a < 32" "b < 64"
  shows "utf8_decode_loop (x # y # rest) 0 0 0 0x80 0xBF
         = (a * 0x40 + b) # utf8_decode_loop rest 0 0 0 0x80 0xBF"
proof -
  have m: "(0xC0 + a) mod 0x20 = a" "(0x80 + b) mod 0x40 = b"
    using mod_base [where a = a and m = "0x20" and k = 6]
      mod_base [where a = b and m = "0x40" and k = 2] r by simp_all
  have "utf8_decode_loop (x # y # rest) 0 0 0 0x80 0xBF
        = utf8_decode_loop (y # rest) a 0 1 0x80 0xBF"
    using r by (subst utf8_decode_loop.simps) (simp add: Let_def u m)
  also have "\<dots> = (a * 0x40 + b) # utf8_decode_loop rest 0 0 0 0x80 0xBF"
    using r by (subst utf8_decode_loop.simps) (simp add: Let_def u m)
  finally show ?thesis .
qed

lemma utf8_decode_3:
  assumes u: "unat x = 0xE0 + a" "unat y = 0x80 + b" "unat z = 0x80 + c"
    and r: "a < 16" "b < 64" "c < 64" "a = 0 \<longrightarrow> 32 \<le> b" "a = 13 \<longrightarrow> b < 32"
  shows "utf8_decode_loop (x # y # z # rest) 0 0 0 0x80 0xBF
         = ((a * 0x40 + b) * 0x40 + c) # utf8_decode_loop rest 0 0 0 0x80 0xBF"
proof -
  have m: "(0xE0 + a) mod 0x10 = a" "(0x80 + b) mod 0x40 = b" "(0x80 + c) mod 0x40 = c"
    using mod_base [where a = a and m = "0x10" and k = 14]
      mod_base [where a = b and m = "0x40" and k = 2]
      mod_base [where a = c and m = "0x40" and k = 2] r by simp_all
  have "utf8_decode_loop (x # y # z # rest) 0 0 0 0x80 0xBF
        = utf8_decode_loop (y # z # rest) a 0 2
            (if a = 0 then 0xA0 else 0x80) (if a = 13 then 0x9F else 0xBF)"
    using r by (subst utf8_decode_loop.simps) (simp add: Let_def u m)
  also have "\<dots> = utf8_decode_loop (z # rest) (a * 0x40 + b) 1 2 0x80 0xBF"
    using r by (subst utf8_decode_loop.simps) (auto simp: Let_def u m)
  also have "\<dots> = ((a * 0x40 + b) * 0x40 + c) # utf8_decode_loop rest 0 0 0 0x80 0xBF"
    using r by (subst utf8_decode_loop.simps) (simp add: Let_def u m)
  finally show ?thesis .
qed

lemma utf8_decode_4:
  assumes u: "unat x = 0xF0 + a" "unat y = 0x80 + b" "unat z = 0x80 + c" "unat w = 0x80 + d"
    and r: "a \<le> 4" "b < 64" "c < 64" "d < 64" "a = 0 \<longrightarrow> 16 \<le> b" "a = 4 \<longrightarrow> b < 16"
  shows "utf8_decode_loop (x # y # z # w # rest) 0 0 0 0x80 0xBF
         = (((a * 0x40 + b) * 0x40 + c) * 0x40 + d) # utf8_decode_loop rest 0 0 0 0x80 0xBF"
proof -
  have m: "(0xF0 + a) mod 0x08 = a" "(0x80 + b) mod 0x40 = b" "(0x80 + c) mod 0x40 = c"
      "(0x80 + d) mod 0x40 = d"
    using mod_base [where a = a and m = "0x08" and k = 30]
      mod_base [where a = b and m = "0x40" and k = 2]
      mod_base [where a = c and m = "0x40" and k = 2]
      mod_base [where a = d and m = "0x40" and k = 2] r by simp_all
  have "utf8_decode_loop (x # y # z # w # rest) 0 0 0 0x80 0xBF
        = utf8_decode_loop (y # z # w # rest) a 0 3
            (if a = 0 then 0x90 else 0x80) (if a = 4 then 0x8F else 0xBF)"
    using r by (subst utf8_decode_loop.simps) (simp add: Let_def u m)
  also have "\<dots> = utf8_decode_loop (z # w # rest) (a * 0x40 + b) 1 3 0x80 0xBF"
    using r by (subst utf8_decode_loop.simps) (auto simp: Let_def u m)
  also have "\<dots> = utf8_decode_loop (w # rest) ((a * 0x40 + b) * 0x40 + c) 2 3 0x80 0xBF"
    using r by (subst utf8_decode_loop.simps) (simp add: Let_def u m numeral_2_eq_2 [symmetric])
  also have "\<dots> = (((a * 0x40 + b) * 0x40 + c) * 0x40 + d)
                     # utf8_decode_loop rest 0 0 0 0x80 0xBF"
    using r by (subst utf8_decode_loop.simps) (simp add: Let_def u m)
  finally show ?thesis .
qed

lemma decode_one:
  assumes "scalar cp"
  shows "utf8_decode_loop (utf8_of_code_point cp @ rest) 0 0 0 0x80 0xBF
         = cp # utf8_decode_loop rest 0 0 0 0x80 0xBF"
proof -
  define c where "c = cp mod 0x40"
  define q where "q = cp div 0x40"
  define b where "b = q mod 0x40"
  define p where "p = q div 0x40"
  define b' where "b' = p mod 0x40"
  define a' where "a' = p div 0x40"
  have cp: "cp = q * 0x40 + c" and q: "q = p * 0x40 + b" and p: "p = a' * 0x40 + b'"
    by (simp_all add: c_def q_def b_def p_def b'_def a'_def)
  have lt: "c < 0x40" "b < 0x40" "b' < 0x40"
    by (simp_all add: c_def b_def b'_def)
  have d12: "cp div 0x1000 = p"
    using div_mult2_eq [of cp "0x40" "0x40"] by (simp add: p_def q_def)
  have d18: "cp div 0x40000 = a'"
    using div_mult2_eq [of cp "0x1000" "0x40"] by (simp add: d12 a'_def)
  from assms have sc: "cp < 0x110000" "cp < 0xD800 \<or> 0xDFFF < cp"
    unfolding scalar_def by linarith+
  consider (one) "cp < 0x80" | (two) "0x80 \<le> cp" "cp < 0x800"
    | (three) "0x800 \<le> cp" "cp < 0x10000" | (four) "0x10000 \<le> cp"
    by linarith
  then show ?thesis
  proof cases
    case one
    then have "utf8_of_code_point cp = [of_nat cp]" by (simp add: utf8_of_code_point_def)
    moreover have "unat (of_nat cp :: byte) = cp" using one by (intro unat_byte_of_nat) linarith
    ultimately show ?thesis using utf8_decode_1 [of "of_nat cp" cp rest] one by simp
  next
    case two
    then have enc: "utf8_of_code_point cp = [of_nat (0xC0 + q), of_nat (0x80 + c)]"
      by (simp add: utf8_of_code_point_def q_def c_def)
    have r: "2 \<le> q" "q < 32" using two cp lt by linarith+
    have u: "unat (of_nat (0xC0 + q) :: byte) = 0xC0 + q" "unat (of_nat (0x80 + c) :: byte) = 0x80 + c"
      using r lt by (intro unat_byte_of_nat; linarith)+
    show ?thesis
      unfolding enc using utf8_decode_2 [OF u r lt(1), of rest] cp by simp
  next
    case three
    then have enc: "utf8_of_code_point cp
                    = [of_nat (0xE0 + p), of_nat (0x80 + b), of_nat (0x80 + c)]"
      by (simp add: utf8_of_code_point_def d12 b_def q_def c_def)
    have r: "p < 16" "p = 0 \<longrightarrow> 32 \<le> b" "p = 13 \<longrightarrow> b < 32"
      using three sc cp q lt by linarith+
    have u: "unat (of_nat (0xE0 + p) :: byte) = 0xE0 + p" "unat (of_nat (0x80 + b) :: byte) = 0x80 + b"
        "unat (of_nat (0x80 + c) :: byte) = 0x80 + c"
      using r lt by (intro unat_byte_of_nat; linarith)+
    show ?thesis
      unfolding enc using utf8_decode_3 [OF u r(1) lt(2) lt(1) r(2) r(3), of rest] cp q by simp
  next
    case four
    then have enc: "utf8_of_code_point cp
                    = [of_nat (0xF0 + a'), of_nat (0x80 + b'), of_nat (0x80 + b), of_nat (0x80 + c)]"
      by (simp add: utf8_of_code_point_def d12 d18 b_def b'_def q_def c_def)
    have r: "a' \<le> 4" "a' = 0 \<longrightarrow> 16 \<le> b'" "a' = 4 \<longrightarrow> b' < 16"
      using four sc cp q p lt by linarith+
    have u: "unat (of_nat (0xF0 + a') :: byte) = 0xF0 + a'"
        "unat (of_nat (0x80 + b') :: byte) = 0x80 + b'"
        "unat (of_nat (0x80 + b) :: byte) = 0x80 + b"
        "unat (of_nat (0x80 + c) :: byte) = 0x80 + c"
      using r lt by (intro unat_byte_of_nat; linarith)+
    show ?thesis
      unfolding enc using utf8_decode_4 [OF u r(1) lt(3) lt(2) lt(1) r(2) r(3), of rest] cp q p by simp
  qed
qed

lemma decode_all:
  "\<forall>cp \<in> set cps. scalar cp \<Longrightarrow>
   utf8_decode_loop (concat (map utf8_of_code_point cps) @ rest) 0 0 0 0x80 0xBF
   = cps @ utf8_decode_loop rest 0 0 0 0x80 0xBF"
  by (induction cps) (simp_all add: decode_one)

lemma utf8_BOM: "utf8_of_code_point 0xFEFF = [0xEF, 0xBB, 0xBF]"
  by (simp add: utf8_of_code_point_def)

lemma first_code_point:
  assumes "scalar cp" "take 3 (utf8_of_code_point cp @ tl0) = [0xEF, 0xBB, 0xBF]"
  shows "cp = 0xFEFF"
proof -
  define bytes where "bytes = utf8_of_code_point cp @ tl0"
  have "bytes = take 3 bytes @ drop 3 bytes" by simp
  then have "bytes = utf8_of_code_point 0xFEFF @ drop 3 bytes"
    using assms(2) by (simp only: utf8_BOM bytes_def)
  then have "utf8_decode_loop bytes 0 0 0 0x80 0xBF
             = 0xFEFF # utf8_decode_loop (drop 3 bytes) 0 0 0 0x80 0xBF"
    using decode_one [of "0xFEFF" "drop 3 bytes"] by (simp add: scalar_def)
  moreover have "utf8_decode_loop bytes 0 0 0 0x80 0xBF = cp # utf8_decode_loop tl0 0 0 0 0x80 0xBF"
    unfolding bytes_def by (rule decode_one [OF assms(1)])
  ultimately show ?thesis by simp
qed

lemma code_points_head:
  assumes "well_formed (a # rest)"
  shows "\<exists>cp cps. code_points (a # rest) = cp # cps \<and> (0x10000 \<le> cp \<or> cp = unat a)"
proof (cases rest)
  case Nil
  with assms show ?thesis by simp
next
  case (Cons b rest')
  with assms show ?thesis by (cases "is_high_surrogate a") (auto split: if_splits)
qed

lemma no_BOM:
  assumes "text_ok s"
  shows "take 3 (TextEncoder_encode s) \<noteq> [0xEF, 0xBB, 0xBF]"
proof (cases s)
  case Nil
  then show ?thesis by (simp add: TextEncoder_encode_def)
next
  case (Cons a rest)
  with assms have wf: "well_formed (a # rest)" and a: "a \<noteq> 0xFEFF"
    by (simp_all add: text_ok_def)
  from code_points_head [OF wf] obtain cp cps
    where cps: "code_points (a # rest) = cp # cps" and cp: "0x10000 \<le> cp \<or> cp = unat a"
    by blast
  have sc: "scalar cp" using code_points_scalar [of cp "a # rest"] cps by simp
  show ?thesis
  proof
    assume "take 3 (TextEncoder_encode s) = [0xEF, 0xBB, 0xBF]"
    then have "take 3 (utf8_of_code_point cp @ concat (map utf8_of_code_point cps))
               = [0xEF, 0xBB, 0xBF]"
      by (simp add: TextEncoder_encode_def Cons cps)
    from first_code_point [OF sc this] have "cp = 0xFEFF" .
    with cp have "unat a = 0xFEFF" by simp
    then have "(of_nat (unat a) :: 16 word) = of_nat 0xFEFF" by (rule arg_cong)
    then have "a = 0xFEFF" by simp
    with a show False by simp
  qed
qed

lemma text_round_trip:
  assumes "text_ok s"
  shows "TextDecoder_decode (TextEncoder_encode s) = s"
proof -
  have wf: "well_formed s" using assms by (simp add: text_ok_def)
  have "utf8_decode_loop (concat (map utf8_of_code_point (code_points s)) @ []) 0 0 0 0x80 0xBF
        = code_points s @ utf8_decode_loop [] 0 0 0 0x80 0xBF"
    by (rule decode_all) (simp add: code_points_scalar)
  then have "utf8_decode_loop (TextEncoder_encode s) 0 0 0 0x80 0xBF = code_points s"
    by (simp add: TextEncoder_encode_def utf8_decode_loop.simps)
  then show ?thesis
    using no_BOM [OF assms] utf16_code_points [OF wf] by (simp add: TextDecoder_decode_def)
qed

section \<open>The TLV codec: round trip\<close>

lemma ucast_ucast_16_8: 
  assumes "u < 0x100" shows "(ucast (ucast (u :: 16 word) :: byte) :: 16 word) = u"
proof -
  have "unat u < 256" using assms by (simp add: word_less_nat_alt)
  then have "unat (ucast (ucast u :: byte) :: 16 word) = unat u"
    by (simp add: unsigned_ucast_eq unsigned_take_bit_eq take_bit_nat_eq_self)
  then show ?thesis by (simp add: word_unat_eq_iff)
qed

lemma decodeTLV_at:
  assumes "length vb \<le> 0xFFFF"
  shows "decodeTLV (pre @ [t0, t1] @ le16 (of_nat (length vb)) @ vb @ post) (length pre)
         = (case tag_kind_of [ucast t0, ucast t1] of
              KFloat32 \<Rightarrow>
                if length vb < 4 then Inl RangeError
                else Inr (([ucast t0, ucast t1], JNumber (f32_to_number (of_le32 vb))),
                          length pre + 4 + length vb)
            | KUint8 \<Rightarrow>
                if vb = [] then Inr (([ucast t0, ucast t1], JUndefined), length pre + 4 + length vb)
                else Inr (([ucast t0, ucast t1], JNumber (JInt (uint (vb ! 0)))),
                          length pre + 4 + length vb)
            | KUint16 \<Rightarrow>
                if length vb < 2 then Inl RangeError
                else Inr (([ucast t0, ucast t1], JNumber (JInt (uint (of_le16 vb)))),
                          length pre + 4 + length vb)
            | KUint64 \<Rightarrow>
                if length vb < 8 then Inl RangeError
                else Inr (([ucast t0, ucast t1], JNumber (JInt (number_of_uint64 (of_le64 vb)))),
                          length pre + 4 + length vb)
            | KText \<Rightarrow> Inr (([ucast t0, ucast t1], JString (TextDecoder_decode vb)),
                            length pre + 4 + length vb)
            | KNested \<Rightarrow>
                (case decode_fields vb 0 [] of
                   Inl e \<Rightarrow> Inl e
                 | Inr nested \<Rightarrow> Inr (([ucast t0, ucast t1], JArray nested),
                                      length pre + 4 + length vb)))"
proof -
  define w :: "16 word" where "w = of_nat (length vb)"
  define data where "data = pre @ [t0, t1] @ le16 w @ vb @ post"
  have data: "data = pre @ t0 # t1 # ucast w # ucast (drop_bit 8 w) # vb @ post"
    by (simp add: data_def le16_def)
  have len: "length data = length pre + 4 + length vb + length post"
    by (simp add: data)
  have nth: "data ! length pre = t0" "data ! Suc (length pre) = t1"
      "data ! Suc (Suc (length pre)) = ucast w" "data ! (length pre + 3) = ucast (drop_bit 8 w)"
    by (simp_all add: data nth_append)
  have "unat w = length vb"
    unfolding w_def using assms by (simp add: unsigned_of_nat take_bit_nat_eq_self)
  then have n: "getUint16 (ucast w) (ucast (drop_bit 8 w)) = length vb"
    by (simp add: getUint16_le16)
  have vb: "take (length vb) (drop (length pre + 4) data) = vb"
    by (simp add: data)
  show ?thesis
    unfolding w_def [symmetric] data_def [symmetric]
    by (subst decodeTLV.simps) (simp add: Let_def len nth n vb)
qed

lemma tag_units:
  assumes "length tag = 2" "tag ! 0 < 0x100" "tag ! 1 < 0x100"
  shows "[ucast (ucast (tag ! 0 :: 16 word) :: byte), ucast (ucast (tag ! 1) :: byte)] = tag"
proof -
  from assms(1) obtain a b where tag: "tag = [a, b]"
    by (cases tag; cases "tl tag") auto
  with assms show ?thesis by (simp add: ucast_ucast_16_8)
qed

lemma uint8_read: "0 \<le> n \<Longrightarrow> n \<le> 0xFF \<Longrightarrow> uint (of_int n :: byte) = n"
  by (simp add: uint_word_of_int)

lemma uint16_read: "0 \<le> n \<Longrightarrow> n \<le> 0xFFFF \<Longrightarrow> uint (of_int n :: 16 word) = n"
  by (simp add: uint_word_of_int)

lemma uint64_read:
  assumes "0 \<le> n" "n < 2 ^ 53"
  shows "number_of_uint64 (of_int n) = n"
proof -
  have "uint (of_int n :: 64 word) = n" using assms by (simp add: uint_word_of_int)
  then have "unat (of_int n :: 64 word) = nat n" by (simp add: unat_eq_nat_uint)
  moreover have "nat n < 2 ^ 53" using assms by (simp add: nat_less_iff)
  ultimately show ?thesis using assms by (simp add: number_of_uint64_def Let_def)
qed

lemma length_le [simp]: "length (le16 a) = 2" "length (le32 b) = 4" "length (le64 c) = 8"
  by (simp_all add: le16_def le32_def le64_def)

lemma value_read:
  assumes fit: "value_fits (tag_kind_of tag) v"
    and enc: "value_bytes v = Inr vb"
    and nested: "\<And>items. v = JArray items \<Longrightarrow> \<exists>bs. encode_fields items = Inr bs
           \<and> (\<forall>pre acc. decode_fields (pre @ bs) (length pre) acc = Inr (acc @ items))"
  shows "(case tag_kind_of tag of
              KFloat32 \<Rightarrow>
                if length vb < 4 then Inl RangeError
                else Inr ((tag, JNumber (f32_to_number (of_le32 vb))), next)
            | KUint8 \<Rightarrow>
                if vb = [] then Inr ((tag, JUndefined), next)
                else Inr ((tag, JNumber (JInt (uint (vb ! 0)))), next)
            | KUint16 \<Rightarrow>
                if length vb < 2 then Inl RangeError
                else Inr ((tag, JNumber (JInt (uint (of_le16 vb)))), next)
            | KUint64 \<Rightarrow>
                if length vb < 8 then Inl RangeError
                else Inr ((tag, JNumber (JInt (number_of_uint64 (of_le64 vb)))), next)
            | KText \<Rightarrow> Inr ((tag, JString (TextDecoder_decode vb)), next)
            | KNested \<Rightarrow>
                (case decode_fields vb 0 [] of
                   Inl e \<Rightarrow> Inl e
                 | Inr nested \<Rightarrow> Inr ((tag, JArray nested), next)))
         = Inr ((tag, v), next)"
proof (cases v)
  case (JString s)
  with fit enc show ?thesis by (auto simp: text_round_trip)
next
  case (JNumber x)
  show ?thesis
  proof (cases x)
    case (JInt n)
    from fit JNumber JInt consider
        (u8) "tag_kind_of tag = KUint8" "0 \<le> n" "n \<le> 0xFF"
      | (u16) "tag_kind_of tag = KUint16" "0xFF < n" "n \<le> 0xFFFF"
      | (u64) "tag_kind_of tag = KUint64" "0xFFFFFFFF < n" "n < 2 ^ 53"
      by auto
    then show ?thesis
    proof cases
      case u8
      then have "vb = [of_int n]" using enc JNumber JInt by simp
      with u8 JNumber JInt show ?thesis by (simp add: uint8_read)
    next
      case u16
      then have "vb = le16 (of_int n)" using enc JNumber JInt by simp
      with u16 JNumber JInt show ?thesis by (simp add: uint16_read of_le16_le16)
    next
      case u64
      then have "vb = le64 (of_int n)" using enc JNumber JInt by simp
      with u64 JNumber JInt show ?thesis by (simp add: uint64_read of_le64_le64)
    qed
  next
    case (JFrac w)
    with fit enc JNumber have "vb = le32 w" "tag_kind_of tag = KFloat32" "f32_to_number w = JFrac w"
      by auto
    with JNumber JFrac show ?thesis by (simp add: of_le32_le32)
  qed
next
  case (JArray items)
  from nested [OF JArray] obtain bs where bs: "encode_fields items = Inr bs"
    and dec: "\<And>pre acc. decode_fields (pre @ bs) (length pre) acc = Inr (acc @ items)"
    by blast
  from dec [of "[]" "[]"] have "decode_fields bs 0 [] = Inr items" by simp
  with fit enc JArray bs show ?thesis by auto
next
  case JUndefined
  with fit show ?thesis by simp
qed

lemma tlv_round_trip_all:
  "tlv_fits tag v \<Longrightarrow>
     \<exists>bytes. encodeTLV tag v = Inr bytes \<and> bytes \<noteq> []
       \<and> (\<forall>pre post. decodeTLV (pre @ bytes @ post) (length pre)
                          = Inr ((tag, v), length pre + length bytes))"
  "value_fits k v \<Longrightarrow>
     \<forall>items. v = JArray items \<longrightarrow>
       (\<exists>bs. encode_fields items = Inr bs
          \<and> (\<forall>pre acc. decode_fields (pre @ bs) (length pre) acc = Inr (acc @ items)))"
  "fields_fit items \<Longrightarrow>
     \<exists>bs. encode_fields items = Inr bs
       \<and> (\<forall>pre acc. decode_fields (pre @ bs) (length pre) acc = Inr (acc @ items))"
proof (induction tag v and k v and items rule: tlv_fits_value_fits_fields_fit.induct)
  case (1 tag v)
  from "1.prems" obtain vb where tag: "length tag = 2" "tag ! 0 < 0x100" "tag ! 1 < 0x100"
    and fit: "value_fits (tag_kind_of tag) v"
    and vb: "value_bytes v = Inr vb" "length vb \<le> 0xFFFF"
    by (auto split: sum.splits)
  define bytes where
    "bytes = [ucast (tag ! 0), ucast (tag ! 1)] @ le16 (of_nat (length vb)) @ vb"
  have enc: "encodeTLV tag v = Inr bytes"
    using tag(1) vb(1) by (simp add: bytes_def)
  have len: "length bytes = 4 + length vb"
    by (simp add: bytes_def)
  have nested: "\<And>items. v = JArray items \<Longrightarrow> \<exists>bs. encode_fields items = Inr bs
           \<and> (\<forall>pre acc. decode_fields (pre @ bs) (length pre) acc = Inr (acc @ items))"
    using "1.IH" [OF fit] by blast
  have "decodeTLV (pre @ bytes @ post) (length pre) = Inr ((tag, v), length pre + length bytes)"
    for pre post
  proof -
    have "pre @ bytes @ post
          = pre @ [ucast (tag ! 0), ucast (tag ! 1)] @ le16 (of_nat (length vb)) @ vb @ post"
      by (simp add: bytes_def)
    then show ?thesis
      using decodeTLV_at [OF vb(2), of pre "ucast (tag ! 0)" "ucast (tag ! 1)" post]
        value_read [OF fit vb(1) nested, of "length pre + 4 + length vb"]
      by (simp only: tag_units [OF tag] len add.assoc)
  qed
  moreover have "bytes \<noteq> []" by (simp add: bytes_def)
  ultimately show ?case using enc by blast
next
  case (5 k items)
  then show ?case by simp
next
  case 7
  show ?case by (simp add: decode_fields.simps)
next
  case (8 item rest)
  from "8.prems" have fit: "tlv_fits (fst item) (snd item)" "fields_fit rest" by simp_all
  from "8.IH"(1) [OF fit(1)] obtain b1 where b1: "encodeTLV (fst item) (snd item) = Inr b1"
      "b1 \<noteq> []"
    and dec1: "\<And>pre post. decodeTLV (pre @ b1 @ post) (length pre)
                 = Inr ((fst item, snd item), length pre + length b1)"
    by blast
  from "8.IH"(2) [OF fit(2)] obtain bs where bs: "encode_fields rest = Inr bs"
    and decs: "\<And>pre acc. decode_fields (pre @ bs) (length pre) acc = Inr (acc @ rest)"
    by blast
  have "decode_fields (pre @ b1 @ bs) (length pre) acc = Inr (acc @ item # rest)" for pre acc
  proof -
    have "decode_fields (pre @ b1 @ bs) (length pre) acc
          = decode_fields (pre @ b1 @ bs) (length pre + length b1) (acc @ [item])"
      using b1(2) by (subst decode_fields.simps) (simp add: dec1)
    also have "\<dots> = Inr ((acc @ [item]) @ rest)"
      using decs [of "pre @ b1" "acc @ [item]"] by simp
    finally show ?thesis by simp
  qed
  then show ?case using b1(1) bs by simp
qed simp_all

text \<open>
  Claim C3, as stated for every tag and every supported value, fails: the encoder chooses
  the width from the magnitude of the number, the decoder reads the value by the tag.
  The integer 300 under tag \<open>ST\<close> is written in two bytes and read back as 44.
\<close>

theorem C3_value_width_by_magnitude:
  "encodeTLV (js ''ST'') (JNumber (JInt 300)) = Inr [0x53, 0x54, 0x02, 0x00, 0x2C, 0x01]
   \<and> decodeTLV [0x53, 0x54, 0x02, 0x00, 0x2C, 0x01] 0 = Inr ((js ''ST'', JNumber (JInt 44)), 6)"
  by (simp add: js_def le16_def decodeTLV.simps tag_kind_of_def getUint16_def Let_def)

text \<open>
  Claim C3, amended. For every tag of two code units below 256 and every value of the
  kind the decoder's table reads for that tag (\<open>tlv_fits\<close>: an integer of the width
  of the tag, a non-integral single-precision number under a \<open>float32\<close> tag, a well-formed
  string without leading byte order mark under a text tag, an array of such fields under
  a nested tag, each encoding within 65535 bytes), \<^verbatim>\<open>encodeTLV\<close> returns bytes, and
  \<^verbatim>\<open>decodeTLV\<close> at offset 0 of these bytes returns the same tag and the same value,
  with the next offset at their end.
\<close>

theorem C3_tlv_round_trip:
  assumes "tlv_fits tag v"
  shows "\<exists>bytes. encodeTLV tag v = Inr bytes
                \<and> decodeTLV bytes 0 = Inr ((tag, v), length bytes)"
proof -
  from tlv_round_trip_all(1) [OF assms] obtain bytes where enc: "encodeTLV tag v = Inr bytes"
    and dec: "\<And>pre post. decodeTLV (pre @ bytes @ post) (length pre)
                = Inr ((tag, v), length pre + length bytes)"
    by blast
  from dec [of "[]" "[]"] have "decodeTLV bytes 0 = Inr ((tag, v), length bytes)" by simp
  with enc show ?thesis by blast
qed

lemma sample_fits:
  "tlv_fits (js ''DA'')
     (JArray [(js ''ST'', JNumber (JInt 7)), (js ''MX'', JNumber (JInt 300)),
              (js ''TS'', JNumber (JInt 4294967296)), (js ''T '', JNumber (JFrac 0x3FC00000)),
              (js ''IN'', JString (js ''ping''))])"
  by (simp add: js_def tag_kind_of_def text_ok_def is_high_surrogate_def is_low_surrogate_def
        f32_to_number_def is_nan32_def Let_def le16_def le32_def le64_def TextEncoder_encode_def
        utf8_of_code_point_def)

theorem C3_tlv_round_trip_witness:
  "tlv_fits (js ''DA'')
     (JArray [(js ''ST'', JNumber (JInt 7)), (js ''MX'', JNumber (JInt 300)),
              (js ''TS'', JNumber (JInt 4294967296)), (js ''T '', JNumber (JFrac 0x3FC00000)),
              (js ''IN'', JString (js ''ping''))])
   \<and> decodeTLV
         [0x44, 0x41, 0x27, 0x00,
          0x53, 0x54, 0x01, 0x00, 0x07,
          0x4D, 0x58, 0x02, 0x00, 0x2C, 0x01,
          0x54, 0x53, 0x08, 0x00, 0x00, 0x00, 0x00, 0x00, 0x01, 0x00, 0x00, 0x00,
          0x54, 0x20, 0x04, 0x00, 0x00, 0x00, 0xC0, 0x3F,
          0x49, 0x4E, 0x04, 0x00, 0x70, 0x69, 0x6E, 0x67] 0
       = Inr ((js ''DA'',
               JArray [(js ''ST'', JNumber (JInt 7)), (js ''MX'', JNumber (JInt 300)),
                       (js ''TS'', JNumber (JInt 4294967296)),
                       (js ''T '', JNumber (JFrac 0x3FC00000)),
                       (js ''IN'', JString (js ''ping''))]), 43)"
proof -
  have "encodeTLV (js ''DA'')
     (JArray [(js ''ST'', JNumber (JInt 7)), (js ''MX'', JNumber (JInt 300)),
              (js ''TS'', JNumber (JInt 4294967296)), (js ''T '', JNumber (JFrac 0x3FC00000)),
              (js ''IN'', JString (js ''ping''))])
        = Inr [0x44, 0x41, 0x27, 0x00,
          0x53, 0x54, 0x01, 0x00, 0x07,
          0x4D, 0x58, 0x02, 0x00, 0x2C, 0x01,
          0x54, 0x53, 0x08, 0x00, 0x00, 0x00, 0x00, 0x00, 0x01, 0x00, 0x00, 0x00,
          0x54, 0x20, 0x04, 0x00, 0x00, 0x00, 0xC0, 0x3F,
          0x49, 0x4E, 0x04, 0x00, 0x70, 0x69, 0x6E, 0x67]"
    by (simp add: text_eval le16_def le32_def le64_def)
  with C3_tlv_round_trip [OF sample_fits] sample_fits show ?thesis
    by auto
qed


section \<open>The frame codec: round trip\<close>

lemma getUint16_unat: "getUint16 (le16 w ! 0) (le16 w ! 1) = unat w"
  by (simp add: le16_def getUint16_le16)

lemma sint_nonneg_uint:
  fixes w :: "32 word"
  assumes "0 \<le> sint w"
  shows "sint w = uint w"
proof -
  have "\<not> bit w 31" using assms bit_last_iff [of w] by simp
  then show ?thesis
    by (intro bit_eqI) (auto simp: bit_sint_iff bit_uint_iff dest: bit_imp_le_length)
qed

lemma decodePacket_frame:
  assumes len: "length payload \<le> 0xFFFF"
    and dec: "decode_fields payload 0 [] = Inr data"
    and hdr: "hdr = v2_header ver ty pid rid (of_nat (length payload))"
    and crc: "0 \<le> calculateCRC32 (hdr @ payload)"
  shows "decodePacket ([0xAA, 0x55] @ hdr @ payload
                        @ le32 (of_int (calculateCRC32 (hdr @ payload))) @ [0x55, 0xAA])
         = Inr \<lparr>p_version = unat ver, p_type = unat ty, packetNumber = unat pid,
                 responseNumber = unat rid, p_data = data\<rparr>"
proof -
  define w :: "32 word" where "w = of_int (calculateCRC32 (hdr @ payload))"
  define n :: "16 word" where "n = of_nat (length payload)"
  define frame where "frame = [0xAA, 0x55] @ hdr @ payload @ le32 w @ [0x55, 0xAA]"
  have frame: "frame = 0xAA # 0x55 # ver # ty # ucast pid # ucast (drop_bit 8 pid)
                 # ucast rid # ucast (drop_bit 8 rid) # ucast n # ucast (drop_bit 8 n)
                 # payload @ le32 w @ [0x55, 0xAA]"
    by (simp add: frame_def hdr v2_header_def le16_def n_def)
  have un: "unat n = length payload"
    unfolding n_def using len by (simp add: unsigned_of_nat take_bit_nat_eq_self)
  have flen: "length frame = 16 + length payload"
    by (simp add: frame)
  have nth: "frame ! 0 = 0xAA" "frame ! 1 = 0x55" "frame ! 2 = ver" "frame ! 3 = ty"
      "frame ! 4 = ucast pid" "frame ! 5 = ucast (drop_bit 8 pid)"
      "frame ! 6 = ucast rid" "frame ! 7 = ucast (drop_bit 8 rid)"
      "frame ! 8 = ucast n" "frame ! 9 = ucast (drop_bit 8 n)"
    by (simp_all add: frame)
  have payload: "take (length payload) (drop 10 frame) = payload"
    by (simp add: frame)
  define front where "front = [0xAA, 0x55] @ hdr @ payload"
  have front: "length front = 10 + length payload" "frame = front @ le32 w @ [0x55, 0xAA]"
    by (simp_all add: front_def frame_def hdr v2_header_def)
  have stored: "take 4 (drop (10 + length payload) frame) = le32 w"
    unfolding front(1) [symmetric] front(2) by simp
  have "frame ! (length front + 4) = 0x55" "frame ! (length front + 5) = 0xAA"
    unfolding front(2) by (simp_all add: nth_append le32_def)
  then have tail: "frame ! (14 + length payload) = 0x55" "frame ! (15 + length payload) = 0xAA"
    by (simp_all add: front(1))
  have "calculateCRC32 (hdr @ payload) = sint w"
    by (simp add: w_def calculateCRC32_def)
  with crc have "calculateCRC32 (hdr @ payload) = uint w"
    by (simp add: sint_nonneg_uint)
  then have same: "calculateCRC32 (ver # ty # le16 pid @ le16 rid
                     @ le16 (of_nat (length payload)) @ payload) = uint w"
    by (simp add: hdr v2_header_def)
  have one: "frame ! Suc 0 = 0x55" by (simp add: frame)
  show ?thesis
    unfolding w_def [symmetric] frame_def [symmetric] decodePacket_def
    by (simp add: Let_def flen nth one getUint16_le16 un payload stored tail dec same
        of_le32_le32)
qed

lemma width_crc:
  "crc32_bitwise [0x02, 0x00, 0x01, 0x00, 0x00, 0x00, 0x06, 0x00,
     0x53, 0x54, 0x02, 0x00, 0x2C, 0x01] = 0x0FC6556B"
  by (simp add: crc_eval)

text \<open>
  Claim C4, as stated for every payload, fails: a frame whose payload holds the integer
  300 under tag \<open>ST\<close> is accepted by \<^verbatim>\<open>decodePacket\<close>, which returns the payload
  with the value 44.
\<close>

theorem C4_payload_read_by_tag:
  "encodePacket 0 0 [(js ''ST'', JNumber (JInt 300))] 0
   = (Inr [0xAA, 0x55, 0x02, 0x00, 0x01, 0x00, 0x00, 0x00, 0x06, 0x00,
           0x53, 0x54, 0x02, 0x00, 0x2C, 0x01, 0x6B, 0x55, 0xC6, 0x0F, 0x55, 0xAA], 1)
   \<and> decodePacket [0xAA, 0x55, 0x02, 0x00, 0x01, 0x00, 0x00, 0x00, 0x06, 0x00,
           0x53, 0x54, 0x02, 0x00, 0x2C, 0x01, 0x6B, 0x55, 0xC6, 0x0F, 0x55, 0xAA]
       = Inr \<lparr>p_version = 2, p_type = 0, packetNumber = 1, responseNumber = 0,
               p_data = [(js ''ST'', JNumber (JInt 44))]\<rparr>"
proof -
  have "decode_fields [0x53, 0x54, 0x02, 0x00, 0x2C, 0x01] 0 [] = Inr [(js ''ST'', JNumber (JInt 44))]"
    by (simp add: js_def decode_fields.simps decodeTLV.simps tag_kind_of_def getUint16_def Let_def)
  moreover have "encode_fields [(js ''ST'', JNumber (JInt 300))]
                 = Inr [0x53, 0x54, 0x02, 0x00, 0x2C, 0x01]"
    by (simp add: js_def le16_def)
  ultimately show ?thesis
    by (simp add: encodePacket_def decodePacket_def getNextPacketNumber_def
          MAX_PACKET_NUMBER_def VERSION_def le16_def le32_def of_le32_def getUint16_def
          calculateCRC32_bitwise width_crc Let_def)
qed

lemma unat_byte_of_int: "0 \<le> n \<Longrightarrow> n \<le> 0xFF \<Longrightarrow> unat (of_int n :: byte) = nat n"
  by (simp add: unat_eq_nat_uint uint_word_of_int)

lemma unat_16_of_int: "0 \<le> n \<Longrightarrow> n \<le> 0xFFFF \<Longrightarrow> unat (of_int n :: 16 word) = nat n"
  by (simp add: unat_eq_nat_uint uint_word_of_int)

text \<open>
  Claim C4, amended. For every frame type in \<open>0..255\<close>, response number in \<open>0..65535\<close>
  and payload whose fields fit their tags (\<open>fields_fit\<close>) and whose encoding is within
  65535 bytes, \<^verbatim>\<open>encodePacket\<close> returns a frame and leaves the counter at
  \<open>(packetCounter + 1) mod 128\<close>, advanced once; and when the signed result of
  \<^verbatim>\<open>calculateCRC32\<close> over the header and payload of that frame is not negative (the
  CRC32 is below \<open>2\<^sup>3\<^sup>1\<close>), \<^verbatim>\<open>decodePacket\<close> of the frame succeeds and returns
  version 2, the type, the packet number equal to the counter value assigned, the
  response number and the original payload.
\<close>

theorem C4_frame_round_trip:
  assumes fit: "fields_fit data"
    and enc: "encode_fields data = Inr payload" "length payload \<le> 0xFFFF"
    and ty: "0 \<le> ty" "ty \<le> 0xFF"
    and rid: "0 \<le> rid" "rid \<le> 0xFFFF"
  shows "\<exists>frame. encodePacket packetCounter ty data rid
                   = (Inr frame, (packetCounter + 1) mod 128)
                \<and> (0 \<le> calculateCRC32 (take (8 + length payload) (drop 2 frame)) \<longrightarrow>
                     decodePacket frame
                     = Inr \<lparr>p_version = 2, p_type = nat ty,
                             packetNumber = (packetCounter + 1) mod 128,
                             responseNumber = nat rid, p_data = data\<rparr>)"
proof -
  define pn where "pn = (packetCounter + 1) mod 128"
  define hdr where
    "hdr = v2_header VERSION (of_int ty) (of_nat pn) (of_int rid) (of_nat (length payload))"
  define frame where
    "frame = [0xAA, 0x55] @ hdr @ payload
             @ le32 (of_int (calculateCRC32 (hdr @ payload))) @ [0x55, 0xAA]"
  from tlv_round_trip_all(3) [OF fit] enc(1)
  have "\<And>pre acc. decode_fields (pre @ payload) (length pre) acc = Inr (acc @ data)"
    by auto
  from this [of "[]" "[]"] have dec: "decode_fields payload 0 [] = Inr data" by simp
  have "pn < 128" by (simp add: pn_def)
  then have pn: "unat (of_nat pn :: 16 word) = pn"
    by (simp add: unsigned_of_nat take_bit_nat_eq_self)
  have "length (hdr @ payload) = 8 + length payload"
    by (simp add: hdr_def v2_header_def le16_def)
  moreover have "drop 2 frame
                 = (hdr @ payload) @ le32 (of_int (calculateCRC32 (hdr @ payload))) @ [0x55, 0xAA]"
    by (simp add: frame_def)
  ultimately have checked: "take (8 + length payload) (drop 2 frame) = hdr @ payload"
    by (metis append_eq_conv_conj)
  have encoded: "encodePacket packetCounter ty data rid = (Inr frame, pn)"
    by (simp add: encodePacket_def getNextPacketNumber_def MAX_PACKET_NUMBER_def Let_def enc(1)
          frame_def hdr_def v2_header_def pn_def)
  have "decodePacket frame
        = Inr \<lparr>p_version = 2, p_type = nat ty, packetNumber = pn,
                responseNumber = nat rid, p_data = data\<rparr>"
    if crc: "0 \<le> calculateCRC32 (hdr @ payload)"
  proof -
    have "decodePacket frame
          = Inr \<lparr>p_version = unat VERSION, p_type = unat (of_int ty :: byte),
                  packetNumber = unat (of_nat pn :: 16 word),
                  responseNumber = unat (of_int rid :: 16 word), p_data = data\<rparr>"
      unfolding frame_def by (rule decodePacket_frame [OF enc(2) dec hdr_def crc])
    then show ?thesis
      using ty rid by (simp add: pn unat_byte_of_int unat_16_of_int VERSION_def)
  qed
  with encoded show ?thesis
    unfolding pn_def [symmetric] checked [symmetric] by blast
qed

theorem C4_frame_round_trip_witness:
  "fields_fit ping_fields
   \<and> encodePacket 1 0 ping_fields 0 = (Inr ping_frame_2, 2)
   \<and> decodePacket ping_frame_2
       = Inr \<lparr>p_version = 2, p_type = 0, packetNumber = 2, responseNumber = 0,
               p_data = ping_fields\<rparr>"
proof -
  have fit: "fields_fit ping_fields"
    by (simp add: ping_fields_def js_def tag_kind_of_def text_ok_def is_high_surrogate_def
          is_low_surrogate_def TextEncoder_encode_def utf8_of_code_point_def)
  have crc: "0 \<le> calculateCRC32 (take (8 + length [0x49 :: byte, 0x4E, 0x04, 0x00, 0x70, 0x69,
                           0x6E, 0x67, 0x44, 0x41, 0x00, 0x00]) (drop 2 ping_frame_2))"
    by (simp add: ping_frame_2_def calculateCRC32_bitwise ping_crc_2)
  from C4_frame_round_trip [OF fit ping_fields_bytes, of 0 0 1] encode_ping_2 crc fit
  show ?thesis by simp
qed

end
